theory Spec2Isabelle
  imports Main "HOL-Library.Sublist" "HOL-Library.Multiset"
begin

section \<open>Ceres6 cheat sheet search: the text utilities, the scorer and the ranking\<close>

text \<open>
  A shallow embedding of \<^verbatim>\<open>Ceres6SearchApp.py\<close>. A Python \<^verbatim>\<open>str\<close> is a
  \<^typ>\<open>string\<close>: a list of 8-bit characters, each read as the code point of the same
  number (0 to 255). On that range \<^verbatim>\<open>str.lower\<close> maps one character to one
  character, and \<^verbatim>\<open>str.isspace\<close>, \<^verbatim>\<open>str.strip\<close>, \<^verbatim>\<open>str.split\<close> and the
  regular expression class \<^verbatim>\<open>\s\<close> agree on what a whitespace character is. Python's
  \<^verbatim>\<open>int\<close> is \<^typ>\<open>int\<close>; a value that may be \<^verbatim>\<open>None\<close> is an option.
\<close>

subsection \<open>Characters\<close>

definition is_space :: "char \<Rightarrow> bool" where
  \<comment> \<open>\<^verbatim>\<open>\s\<close>, \<^verbatim>\<open>str.isspace\<close>: tab to carriage return, the four separators
      0x1c to 0x1f, the space, NEL (0x85) and the no-break space (0xa0).\<close>
  "is_space c = (let n = (of_char c :: nat) in
     (9 \<le> n \<and> n \<le> 13) \<or> (28 \<le> n \<and> n \<le> 32) \<or> n = 133 \<or> n = 160)"

definition is_lower_az :: "char \<Rightarrow> bool" where
  \<comment> \<open>the class \<^verbatim>\<open>a-z\<close>\<close>
  "is_lower_az c = (let n = (of_char c :: nat) in 97 \<le> n \<and> n \<le> 122)"

definition is_digit :: "char \<Rightarrow> bool" where
  \<comment> \<open>the class \<^verbatim>\<open>0-9\<close>\<close>
  "is_digit c = (let n = (of_char c :: nat) in 48 \<le> n \<and> n \<le> 57)"

definition lower_char :: "char \<Rightarrow> char" where
  \<comment> \<open>\<^verbatim>\<open>str.lower\<close> on one character: the letters A to Z, and the capital letters
      0xc0 to 0xde of Latin-1 (0xd7 is the multiplication sign), move up by 32.\<close>
  "lower_char c = (let n = (of_char c :: nat) in
     if (65 \<le> n \<and> n \<le> 90) \<or> (192 \<le> n \<and> n \<le> 222 \<and> n \<noteq> 215)
     then char_of (n + 32) else c)"

subsection \<open>The string methods the program calls\<close>

definition lower :: "string \<Rightarrow> string" where
  "lower s = map lower_char s"

definition strip :: "string \<Rightarrow> string" where
  \<comment> \<open>\<^verbatim>\<open>s.strip()\<close>: whitespace removed at both ends\<close>
  "strip s = rev (dropWhile is_space (rev (dropWhile is_space s)))"

definition replace_char :: "char \<Rightarrow> char \<Rightarrow> string \<Rightarrow> string" where
  \<comment> \<open>\<^verbatim>\<open>s.replace(a, b)\<close> for one-character strings \<^verbatim>\<open>a\<close> and \<^verbatim>\<open>b\<close>\<close>
  "replace_char a b s = map (\<lambda>c. if c = a then b else c) s"

definition keep_char :: "char \<Rightarrow> bool" where
  \<comment> \<open>the characters the class \<^verbatim>\<open>[^a-z0-9\s,/-]\<close> does not match\<close>
  "keep_char c = (is_lower_az c \<or> is_digit c \<or> is_space c
                  \<or> c = CHR '','' \<or> c = CHR ''/'' \<or> c = CHR ''-'')"

definition sub_other :: "string \<Rightarrow> string" where
  \<comment> \<open>\<^verbatim>\<open>re.sub(r"[^a-z0-9\s,/-]", " ", text)\<close>: each character outside the
      class becomes a space\<close>
  "sub_other s = map (\<lambda>c. if keep_char c then c else CHR '' '') s"

function sub_spaces :: "string \<Rightarrow> string" where
  \<comment> \<open>\<^verbatim>\<open>re.sub(r"\s+", " ", text)\<close>: each maximal run of whitespace becomes
      one space\<close>
  "sub_spaces [] = []"
| "sub_spaces (c # cs) =
     (if is_space c then CHR '' '' # sub_spaces (dropWhile is_space cs)
      else c # sub_spaces cs)"
  by pat_completeness auto
termination
  by (relation "measure length") (auto simp: length_dropWhile_le less_Suc_eq_le)

function split_ws :: "string \<Rightarrow> string list" where
  \<comment> \<open>\<^verbatim>\<open>s.split()\<close>: the maximal runs of characters that are not whitespace\<close>
  "split_ws s =
     (case dropWhile is_space s of
        [] \<Rightarrow> []
      | c # cs \<Rightarrow> (c # takeWhile (\<lambda>x. \<not> is_space x) cs)
                  # split_ws (dropWhile (\<lambda>x. \<not> is_space x) cs))"
  by pat_completeness auto
termination
proof (relation "measure length")
  fix s :: string and c cs
  assume h: "dropWhile is_space s = c # cs"
  have "length (dropWhile (\<lambda>x. \<not> is_space x) cs) \<le> length cs"
    by (rule length_dropWhile_le)
  moreover have "length (c # cs) \<le> length s"
    using length_dropWhile_le [of is_space s] h by simp
  ultimately show "(dropWhile (\<lambda>x. \<not> is_space x) cs, s) \<in> measure length"
    by simp
qed simp

declare split_ws.simps [simp del]

fun split_on :: "char \<Rightarrow> string \<Rightarrow> string list" where
  \<comment> \<open>\<^verbatim>\<open>s.split(sep)\<close> for a one-character separator: empty pieces are kept, and
      the empty string gives one empty piece\<close>
  "split_on sep [] = [[]]"
| "split_on sep (c # cs) =
     (if c = sep then [] # split_on sep cs
      else (case split_on sep cs of
              [] \<Rightarrow> [[c]]
            | w # ws \<Rightarrow> (c # w) # ws))"

subsection \<open>Configuration\<close>

definition STOPWORDS :: "string set" where
  "STOPWORDS = {''where'', ''can'', ''i'', ''find'', ''the'', ''a'', ''an'', ''of'', ''to'',
     ''for'', ''in'', ''on'', ''and'', ''or'', ''is'', ''are'', ''do'', ''does'', ''what'',
     ''whats'', ''please'', ''me'', ''show'', ''tell''}"

definition ENTITY_HINTS :: "(string \<times> string list) list" where
  \<comment> \<open>a dict keeps its insertion order; each value is a set of trigger words, which the
      program only tests with \<^verbatim>\<open>any\<close>\<close>
  "ENTITY_HINTS =
     [(''agency'', [''agency'', ''agencies'']),
      (''donors'', [''donor'', ''donors'']),
      (''vendors'', [''vendor'', ''vendors'', ''supplier'', ''suppliers'']),
      (''items'', [''item'', ''items'', ''product'', ''sku'']),
      (''ledger'', [''gl'', ''g/l'', ''ledger'', ''general ledger'', ''journal''])]"

definition COL_COMMON :: string where "COL_COMMON = ''Common''"
definition COL_KEYWORD :: string where "COL_KEYWORD = ''Keyword / Search Term''"
definition COL_REPORT :: string where "COL_REPORT = ''Database/Report Location''"
definition COL_FULLKEY :: string where "COL_FULLKEY = ''Full Information Key''"
definition COL_ENTITY :: string where "COL_ENTITY = ''Entity Type''"
definition COL_CANON :: string where "COL_CANON = ''Canonical Field''"
definition COL_SYNONYMS :: string where "COL_SYNONYMS = ''Synonyms / Ask Phrases''"

subsection \<open>Text utilities\<close>

definition or_empty :: "string option \<Rightarrow> string" where
  \<comment> \<open>\<^verbatim>\<open>text or ""\<close>\<close>
  "or_empty t = (case t of None \<Rightarrow> [] | Some s \<Rightarrow> s)"

definition normalize :: "string option \<Rightarrow> string" where
  "normalize t =
     (let text = strip (lower (or_empty t));
          text = sub_other text;
          text = replace_char (CHR ''-'') (CHR '' '') (replace_char (CHR ''/'') (CHR '' '') text);
          text = strip (sub_spaces text)
      in text)"

definition tokenize :: "string option \<Rightarrow> string set" where
  "tokenize t =
     (let t' = normalize t
      in set (filter (\<lambda>w. 3 \<le> length w \<and> w \<notin> STOPWORDS) (split_ws t')))"

definition phrase_list :: "string option \<Rightarrow> string list" where
  "phrase_list synonyms =
     (let parts = [split_on (CHR '','') (or_empty synonyms)];
          raw = concat parts;
          cleaned = map (\<lambda>p. normalize (Some p)) raw
      in filter (\<lambda>p. 3 \<le> length p) cleaned)"

subsection \<open>Rows of the data frame\<close>

text \<open>
  A cell read from the CSV file is a text, or the missing value of pandas (an empty
  cell), which \<^verbatim>\<open>str\<close> prints as \<^verbatim>\<open>nan\<close>. A row maps column names to cells;
  \<^verbatim>\<open>row.get(col, "")\<close> gives the default for a column that is absent. Columns that
  pandas reads as numbers are outside the model.
\<close>

datatype cell = Str string | NaN

fun py_str :: "cell \<Rightarrow> string" where
  "py_str (Str s) = s"
| "py_str NaN = ''nan''"

type_synonym row = "string \<rightharpoonup> cell"

definition row_get :: "row \<Rightarrow> string \<Rightarrow> cell \<Rightarrow> cell" where
  "row_get r col dflt = (case r col of None \<Rightarrow> dflt | Some v \<Rightarrow> v)"

subsection \<open>Scoring\<close>

type_synonym why = "string \<rightharpoonup> int"

fun best_phrase_loop :: "string list \<Rightarrow> string \<Rightarrow> int \<Rightarrow> int" where
  \<comment> \<open>the loop over \<^verbatim>\<open>phrase_list(synonyms)\<close>, from the value of
      \<^verbatim>\<open>best_phrase\<close> so far\<close>
  "best_phrase_loop [] q_norm best_phrase = best_phrase"
| "best_phrase_loop (phr # rest) q_norm best_phrase =
     best_phrase_loop rest q_norm
       (if phr \<noteq> [] \<and> sublist phr q_norm
        then max best_phrase (8 + int (length phr) div 10)
        else best_phrase)"

fun entity_loop ::
  "(string \<times> string list) list \<Rightarrow> string \<Rightarrow> string \<Rightarrow> int \<times> why \<Rightarrow> int \<times> why" where
  \<comment> \<open>the loop over \<^verbatim>\<open>ENTITY_HINTS.items()\<close>, which stops at the first group with a
      trigger word in the query\<close>
  "entity_loop [] q_norm entity (score, why) = (score, why)"
| "entity_loop ((ent, words) # rest) q_norm entity (score, why) =
     (if \<exists>w \<in> set words. sublist w q_norm
      then (if ent = entity
            then (score + 4, why(''entity_bonus'' \<mapsto> 4))
            else (score - 1, why))
      else entity_loop rest q_norm entity (score, why))"

definition score_row :: "string \<Rightarrow> string set \<Rightarrow> row \<Rightarrow> int \<times> why" where
  "score_row q_norm q_tokens row =
     (let common = normalize (Some (py_str (row_get row COL_COMMON (Str []))));
          keyword = normalize (Some (py_str (row_get row COL_KEYWORD (Str []))));
          report = normalize (Some (py_str (row_get row COL_REPORT (Str []))));
          synonyms = py_str (row_get row COL_SYNONYMS (Str []));
          entity = normalize (Some (py_str (row_get row COL_ENTITY (Str []))));
          score = 0;
          why = [''syn_phrase_hit'' \<mapsto> 0, ''token_overlap'' \<mapsto> 0, ''entity_bonus'' \<mapsto> 0];
          best_phrase = best_phrase_loop (phrase_list (Some synonyms)) q_norm 0;
          score = score + best_phrase;
          why = why(''syn_phrase_hit'' \<mapsto> best_phrase);
          row_tokens = tokenize (Some common) \<union> tokenize (Some keyword) \<union> tokenize (Some report);
          overlap = int (card (q_tokens \<inter> row_tokens));
          tok_pts = min 6 (overlap * 2);
          score = score + tok_pts;
          why = why(''token_overlap'' \<mapsto> tok_pts)
      in entity_loop ENTITY_HINTS q_norm entity (score, why))"

subsection \<open>Ranking\<close>

text \<open>
  The ranking is the block of the script under \<^verbatim>\<open>if q:\<close>, up to the slice
  \<^verbatim>\<open>best = scored[:top_k]\<close>; what follows it only displays \<^verbatim>\<open>best\<close>.
  In the script \<^verbatim>\<open>top_k\<close> is the value of a slider from 1 to 10.
\<close>

type_synonym scored = "int \<times> why \<times> row"

definition slice_to :: "'a list \<Rightarrow> int \<Rightarrow> 'a list" where
  \<comment> \<open>\<^verbatim>\<open>xs[:k]\<close>: a negative \<^verbatim>\<open>k\<close> counts from the end\<close>
  "slice_to xs k = take (nat (if k < 0 then int (length xs) + k else k)) xs"

definition score_rows :: "string \<Rightarrow> row list \<Rightarrow> scored list" where
  \<comment> \<open>the loop over \<^verbatim>\<open>df.iterrows()\<close> that fills \<^verbatim>\<open>scored\<close>\<close>
  "score_rows q df =
     (let q_norm = normalize (Some q);
          q_tokens = tokenize (Some q)
      in map (\<lambda>row. case score_row q_norm q_tokens row of (s, why) \<Rightarrow> (s, why, row)) df)"

definition sort_scored :: "scored list \<Rightarrow> scored list" where
  \<comment> \<open>\<^verbatim>\<open>scored.sort(key=lambda x: x[0], reverse=True)\<close>: Python's sort is stable,
      also when reversed\<close>
  "sort_scored scored = sort_key (\<lambda>x. - fst x) scored"

definition rank :: "string \<Rightarrow> row list \<Rightarrow> int \<Rightarrow> scored list" where
  "rank q df top_k =
     (let scored = score_rows q df;
          scored = sort_scored scored;
          best = slice_to scored top_k
      in best)"

definition ranking_block :: "string \<Rightarrow> row list \<Rightarrow> int \<Rightarrow> scored list option" where
  \<comment> \<open>\<^verbatim>\<open>if q:\<close> nothing is ranked for an empty question\<close>
  "ranking_block q df top_k = (if q \<noteq> [] then Some (rank q df top_k) else None)"

subsection \<open>Names for the parts of a score\<close>

text \<open>
  The values \<^verbatim>\<open>score_row\<close> computes on its way, and the statements of the
  specification about them, as functions of the query and the row.
\<close>

definition entity_of :: "row \<Rightarrow> string" where
  \<comment> \<open>the local \<^verbatim>\<open>entity\<close>\<close>
  "entity_of row = normalize (Some (py_str (row_get row COL_ENTITY (Str []))))"

definition synonyms_of :: "row \<Rightarrow> string" where
  \<comment> \<open>the local \<^verbatim>\<open>synonyms\<close>\<close>
  "synonyms_of row = py_str (row_get row COL_SYNONYMS (Str []))"

definition row_tokens_of :: "row \<Rightarrow> string set" where
  \<comment> \<open>the local \<^verbatim>\<open>row_tokens\<close>\<close>
  "row_tokens_of row =
     tokenize (Some (normalize (Some (py_str (row_get row COL_COMMON (Str []))))))
     \<union> tokenize (Some (normalize (Some (py_str (row_get row COL_KEYWORD (Str []))))))
     \<union> tokenize (Some (normalize (Some (py_str (row_get row COL_REPORT (Str []))))))"

definition best_phrase_of :: "string \<Rightarrow> row \<Rightarrow> int" where
  \<comment> \<open>the local \<^verbatim>\<open>best_phrase\<close> after its loop\<close>
  "best_phrase_of q_norm row = best_phrase_loop (phrase_list (Some (synonyms_of row))) q_norm 0"

definition tok_pts_of :: "string set \<Rightarrow> row \<Rightarrow> int" where
  \<comment> \<open>the local \<^verbatim>\<open>tok_pts\<close>\<close>
  "tok_pts_of q_tokens row = min 6 (int (card (q_tokens \<inter> row_tokens_of row)) * 2)"

definition explanation :: "int \<Rightarrow> int \<Rightarrow> int \<Rightarrow> why" where
  \<comment> \<open>a dict \<^verbatim>\<open>why\<close> with the three keys\<close>
  "explanation p t e = [''syn_phrase_hit'' \<mapsto> p, ''token_overlap'' \<mapsto> t, ''entity_bonus'' \<mapsto> e]"

definition matches :: "string \<Rightarrow> string \<times> string list \<Rightarrow> bool" where
  \<comment> \<open>a trigger word of the group is a substring of the query\<close>
  "matches q_norm g = (\<exists>w \<in> set (snd g). sublist w q_norm)"

definition first_hint :: "string \<Rightarrow> (string \<times> string list) option" where
  \<comment> \<open>the specification's words: the first group, in the order of the table, with a
      trigger word in the query\<close>
  "first_hint q_norm = find (matches q_norm) ENTITY_HINTS"

definition phrase_scores :: "string \<Rightarrow> string list \<Rightarrow> int set" where
  \<comment> \<open>the specification's words: \<^verbatim>\<open>8 + floor(len(p) / 10)\<close> for every phrase that
      is a non-empty substring of the query\<close>
  "phrase_scores q_norm phrases =
     (\<lambda>p. 8 + int (length p) div 10) ` {p \<in> set phrases. p \<noteq> [] \<and> sublist p q_norm}"

definition row_scores :: "scored list \<Rightarrow> (row \<times> int) multiset" where
  \<comment> \<open>the multiset of (row, score) pairs of a result\<close>
  "row_scores res = mset (map (\<lambda>(s, w, r). (r, s)) res)"

subsection \<open>Example inputs\<close>

definition ex_query :: string where
  \<comment> \<open>the question the script suggests\<close>
  "ex_query = ''Where can I find agency delivery zone codes?''"

definition ex_row_agency :: row where
  "ex_row_agency =
     [COL_COMMON \<mapsto> Str ''Agency Delivery Zone'',
      COL_KEYWORD \<mapsto> Str ''Delivery Zone Code'',
      COL_REPORT \<mapsto> Str ''Agency Table'',
      COL_FULLKEY \<mapsto> Str ''Agency.Delivery Zone Code'',
      COL_ENTITY \<mapsto> Str ''Agency'',
      COL_CANON \<mapsto> Str ''delivery_zone'',
      COL_SYNONYMS \<mapsto> Str ''delivery zone'']"

definition ex_row_long :: row where
  \<comment> \<open>as \<open>ex_row_agency\<close>, with a second, longer phrase\<close>
  "ex_row_long = ex_row_agency(COL_SYNONYMS \<mapsto> Str ''delivery zone, agency delivery zone'')"

definition ex_row_donor :: row where
  "ex_row_donor =
     [COL_COMMON \<mapsto> Str ''Donor Name'',
      COL_KEYWORD \<mapsto> Str ''Name'',
      COL_REPORT \<mapsto> Str ''Donor List'',
      COL_FULLKEY \<mapsto> Str ''Donor.Name'',
      COL_ENTITY \<mapsto> Str ''Donors'',
      COL_CANON \<mapsto> Str ''donor_name'',
      COL_SYNONYMS \<mapsto> Str ''giver, who gave'']"

subsection \<open>Predicates for the statements about normalized text\<close>

definition out_char :: "char \<Rightarrow> bool" where
  \<comment> \<open>a lowercase letter, a digit, the space or the comma\<close>
  "out_char c = (is_lower_az c \<or> is_digit c \<or> c = CHR '' '' \<or> c = CHR '','')"

fun no_double_space :: "string \<Rightarrow> bool" where
  \<comment> \<open>no two neighbouring characters are both whitespace\<close>
  "no_double_space (a # b # cs) = (\<not> (is_space a \<and> is_space b) \<and> no_double_space (b # cs))"
| "no_double_space [a] = True"
| "no_double_space [] = True"

definition clean :: "string \<Rightarrow> bool" where
  \<comment> \<open>the shape of a normalized text\<close>
  "clean s = ((\<forall>c \<in> set s. out_char c) \<and> no_double_space s
     \<and> (s = [] \<or> (\<not> is_space (hd s) \<and> \<not> is_space (last s))))"

section \<open>Properties of the text utilities\<close>

subsection \<open>Characters\<close>

lemma is_space_blank: "is_space (CHR '' '')"
  by (simp add: is_space_def)

lemma out_char_space: "out_char c \<Longrightarrow> is_space c \<Longrightarrow> c = CHR '' ''"
  by (auto simp: out_char_def is_space_def is_lower_az_def is_digit_def Let_def)

lemma out_char_keep: "out_char c \<Longrightarrow> keep_char c"
  by (auto simp: out_char_def keep_char_def is_space_blank)

lemma out_char_not_slash: "out_char c \<Longrightarrow> c \<noteq> CHR ''/'' \<and> c \<noteq> CHR ''-''"
  by (auto simp: out_char_def is_lower_az_def is_digit_def Let_def)

lemma out_char_lower: "out_char c \<Longrightarrow> lower_char c = c"
  by (auto simp: out_char_def lower_char_def is_lower_az_def is_digit_def Let_def)

lemma keep_char_after: "keep_char c \<Longrightarrow> c \<noteq> CHR ''/'' \<Longrightarrow> c \<noteq> CHR ''-'' \<Longrightarrow> \<not> is_space c \<Longrightarrow> out_char c"
  by (auto simp: out_char_def keep_char_def)


lemma set_sub_spaces: "c \<in> set (sub_spaces s) \<Longrightarrow> c = CHR '' '' \<or> (c \<in> set s \<and> \<not> is_space c)"
proof (induction s rule: sub_spaces.induct)
  case 1
  then show ?case by simp
next
  case (2 c cs)
  then show ?case
    by (auto split: if_splits dest: set_dropWhileD)
qed

lemma sub_spaces_head:
  "xs = [] \<or> \<not> is_space (hd xs) \<Longrightarrow> sub_spaces xs = [] \<or> \<not> is_space (hd (sub_spaces xs))"
  by (cases xs) auto

lemma dropWhile_head: "dropWhile P xs = [] \<or> \<not> P (hd (dropWhile P xs))"
  using hd_dropWhile [of P xs] by blast

lemma no_double_space_Cons:
  "no_double_space (a # xs) = ((xs = [] \<or> \<not> (is_space a \<and> is_space (hd xs))) \<and> no_double_space xs)"
  by (cases xs) auto

lemma no_double_sub_spaces: "no_double_space (sub_spaces s)"
proof (induction s rule: sub_spaces.induct)
  case 1
  then show ?case by simp
next
  case (2 c cs)
  show ?case
  proof (cases "is_space c")
    case True
    have "sub_spaces (dropWhile is_space cs) = [] \<or> \<not> is_space (hd (sub_spaces (dropWhile is_space cs)))"
      by (rule sub_spaces_head) (rule dropWhile_head)
    with True 2 show ?thesis
      by (simp add: no_double_space_Cons)
  next
    case False
    with 2 show ?thesis
      by (simp add: no_double_space_Cons)
  qed
qed

lemma no_double_space_append:
  "no_double_space (xs @ ys) \<Longrightarrow> no_double_space xs \<and> no_double_space ys"
proof (induction xs rule: no_double_space.induct)
  case (1 a b cs)
  then show ?case by simp
next
  case (2 a)
  then show ?case by (simp add: no_double_space_Cons)
next
  case 3
  then show ?case by simp
qed

lemma strip_infix: "\<exists>pre post. s = pre @ strip s @ post"
proof -
  let ?d = "dropWhile is_space s"
  have "s = takeWhile is_space s @ ?d" by simp
  moreover have "?d = rev (dropWhile is_space (rev ?d)) @ rev (takeWhile is_space (rev ?d))"
    by (metis rev_append rev_rev_ident takeWhile_dropWhile_id)
  ultimately have "s = takeWhile is_space s @ strip s @ rev (takeWhile is_space (rev ?d))"
    by (simp add: strip_def)
  then show ?thesis by blast
qed

lemma no_double_strip: "no_double_space s \<Longrightarrow> no_double_space (strip s)"
proof -
  assume h: "no_double_space s"
  obtain pre post where "s = pre @ strip s @ post" using strip_infix by blast
  with h have "no_double_space (pre @ strip s @ post)" by simp
  then show ?thesis using no_double_space_append by blast
qed

lemma set_strip: "set (strip s) \<subseteq> set s"
proof -
  obtain pre post where "s = pre @ strip s @ post" using strip_infix by blast
  then have "set s = set pre \<union> set (strip s) \<union> set post" by (metis set_append Un_assoc)
  then show ?thesis by blast
qed

lemma strip_ends: "strip s \<noteq> [] \<Longrightarrow> \<not> is_space (hd (strip s)) \<and> \<not> is_space (last (strip s))"
proof -
  assume ne: "strip s \<noteq> []"
  let ?d = "dropWhile is_space s"
  let ?e = "dropWhile is_space (rev ?d)"
  have e: "?e \<noteq> []" using ne by (simp add: strip_def)
  then have l: "\<not> is_space (hd ?e)" using hd_dropWhile by blast
  have "last (strip s) = hd ?e" using e by (simp add: strip_def last_rev)
  with l have a: "\<not> is_space (last (strip s))" by simp
  have d: "?d \<noteq> []"
  proof
    assume a: "?d = []"
    have "dropWhile is_space (rev []) = ([] :: string)" by simp
    with a have "?e = []" by (simp only:)
    with e show False by (simp only:)
  qed
  then have hd: "\<not> is_space (hd ?d)" using hd_dropWhile by blast
  have "rev ?d = takeWhile is_space (rev ?d) @ ?e" by simp
  then have "last (rev ?d) = last ?e" using e by (metis last_appendR)
  then have "last ?e = hd ?d" using d by (simp add: last_rev)
  moreover have "hd (strip s) = last ?e" using e by (simp add: strip_def hd_rev)
  ultimately have "\<not> is_space (hd (strip s))" using hd by simp
  with a show ?thesis by simp
qed

lemma strip_id: "s = [] \<or> (\<not> is_space (hd s) \<and> \<not> is_space (last s)) \<Longrightarrow> strip s = s"
proof (cases s)
  case Nil
  then show ?thesis by (simp add: strip_def)
next
  case (Cons a as)
  assume "s = [] \<or> (\<not> is_space (hd s) \<and> \<not> is_space (last s))"
  with Cons have h: "\<not> is_space (hd s)" and l: "\<not> is_space (last s)" by auto
  have ne: "s \<noteq> []" using Cons by simp
  have 1: "dropWhile is_space s = s" using h Cons by simp
  obtain b bs where r: "rev s = b # bs" using ne by (cases "rev s") auto
  have "hd (rev s) = last s" using ne by (simp add: hd_rev)
  with r have "b = last s" by simp
  with l have "dropWhile is_space (b # bs) = b # bs" by simp
  with r have "dropWhile is_space (rev s) = rev s" by simp
  with 1 show ?thesis by (simp add: strip_def)
qed

lemma sub_spaces_id:
  "\<forall>c \<in> set s. is_space c \<longrightarrow> c = CHR '' '' \<Longrightarrow> no_double_space s \<Longrightarrow> sub_spaces s = s"
proof (induction s rule: sub_spaces.induct)
  case 1
  then show ?case by simp
next
  case (2 c cs)
  show ?case
  proof (cases "is_space c")
    case True
    with 2 have c: "c = CHR '' ''" by simp
    from True 2(4) have "cs = [] \<or> \<not> is_space (hd cs)" by (simp add: no_double_space_Cons)
    then have d: "dropWhile is_space cs = cs" by (cases cs) auto
    have "no_double_space cs" using 2(4) by (simp add: no_double_space_Cons)
    with 2 True d have "sub_spaces cs = cs" by simp
    with True c d show ?thesis by simp
  next
    case False
    have "no_double_space cs" using 2(4) by (simp add: no_double_space_Cons)
    with 2 False show ?thesis by simp
  qed
qed

lemma no_double_space_nth:
  "no_double_space s \<Longrightarrow> Suc i < length s \<Longrightarrow> \<not> (is_space (s ! i) \<and> is_space (s ! Suc i))"
proof (induction s arbitrary: i rule: no_double_space.induct)
  case (1 a b cs)
  then show ?case by (cases i) auto
next
  case (2 a)
  then show ?case by simp
next
  case 3
  then show ?case by simp
qed

lemma keep_char_blank: "keep_char (CHR '' '')"
  by (simp add: keep_char_def is_space_blank)

lemma replaced_char:
  "keep_char (if keep_char c then c else CHR '' '')"
  by (simp add: keep_char_blank)

lemma replaced_keep:
  assumes "keep_char d"
  defines "e \<equiv> (if d = CHR ''/'' then CHR '' '' else d)"
  defines "g \<equiv> (if e = CHR ''-'' then CHR '' '' else e)"
  shows "keep_char g \<and> g \<noteq> CHR ''/'' \<and> g \<noteq> CHR ''-''"
proof -
  have e: "keep_char e \<and> e \<noteq> CHR ''/''"
    using assms(1) by (simp add: e_def keep_char_blank)
  then show ?thesis
    by (simp add: g_def keep_char_blank)
qed

lemma clean_normalize: "clean (normalize t)"
proof -
  define a where "a = strip (lower (or_empty t))"
  define b where "b = replace_char (CHR ''-'') (CHR '' '') (replace_char (CHR ''/'') (CHR '' '') (sub_other a))"
  have n: "normalize t = strip (sub_spaces b)"
    by (simp add: normalize_def a_def b_def Let_def)
  have kb: "\<forall>c \<in> set b. keep_char c \<and> c \<noteq> CHR ''/'' \<and> c \<noteq> CHR ''-''"
  proof
    fix c assume cb: "c \<in> set b"
    define h where "h = (\<lambda>x. let d = (if keep_char x then x else CHR '' '');
                                e = (if d = CHR ''/'' then CHR '' '' else d)
                            in (if e = CHR ''-'' then CHR '' '' else e))"
    have "b = map h a"
      by (simp add: b_def replace_char_def sub_other_def h_def Let_def)
    with cb obtain x where c: "c = h x" by auto
    show "keep_char c \<and> c \<noteq> CHR ''/'' \<and> c \<noteq> CHR ''-''"
      unfolding c h_def Let_def by (rule replaced_keep) (rule replaced_char)
  qed
  have "\<forall>c \<in> set (sub_spaces b). out_char c"
  proof
    fix c assume "c \<in> set (sub_spaces b)"
    then have "c = CHR '' '' \<or> (c \<in> set b \<and> \<not> is_space c)" by (rule set_sub_spaces)
    then show "out_char c"
    proof
      assume "c = CHR '' ''" then show ?thesis by (simp add: out_char_def)
    next
      assume "c \<in> set b \<and> \<not> is_space c"
      with kb show ?thesis by (simp add: keep_char_after)
    qed
  qed
  then have 1: "\<forall>c \<in> set (normalize t). out_char c"
    using set_strip [of "sub_spaces b"] n by auto
  have 2: "no_double_space (normalize t)"
    using n no_double_strip [OF no_double_sub_spaces] by simp
  have 3: "normalize t = [] \<or> (\<not> is_space (hd (normalize t)) \<and> \<not> is_space (last (normalize t)))"
    using strip_ends [of "sub_spaces b"] n by auto
  from 1 2 3 show ?thesis by (simp add: clean_def)
qed

lemma normalize_clean_id: "clean s \<Longrightarrow> normalize (Some s) = s"
proof -
  assume c: "clean s"
  then have oc: "\<forall>c \<in> set s. out_char c" by (simp add: clean_def)
  have 1: "lower s = s" using oc by (simp add: lower_def out_char_lower map_idI)
  have 2: "strip s = s" using c by (simp add: clean_def strip_id)
  have 3: "sub_other s = s" using oc by (simp add: sub_other_def out_char_keep map_idI)
  have ns: "\<And>x. x \<in> set s \<Longrightarrow> x \<noteq> CHR ''/'' \<and> x \<noteq> CHR ''-''"
    using oc out_char_not_slash by blast
  have 4: "replace_char (CHR ''/'') (CHR '' '') s = s"
    unfolding replace_char_def
  proof (rule map_idI)
    fix x assume "x \<in> set s"
    then have "x \<noteq> CHR ''/''" using ns by blast
    then show "(if x = CHR ''/'' then CHR '' '' else x) = x" by simp
  qed
  have 5: "replace_char (CHR ''-'') (CHR '' '') s = s"
    unfolding replace_char_def
  proof (rule map_idI)
    fix x assume "x \<in> set s"
    then have "x \<noteq> CHR ''-''" using ns by blast
    then show "(if x = CHR ''-'' then CHR '' '' else x) = x" by simp
  qed
  have 6: "sub_spaces s = s"
  proof (rule sub_spaces_id)
    show "\<forall>c \<in> set s. is_space c \<longrightarrow> c = CHR '' ''"
      using oc out_char_space by blast
    show "no_double_space s" using c by (simp add: clean_def)
  qed
  show ?thesis
    by (simp add: normalize_def or_empty_def Let_def 1 2 3 4 5 6)
qed

subsection \<open>Normalization\<close>

text \<open>
  Claim C6. For every string \<open>s\<close>, \<^verbatim>\<open>normalize(normalize(s)) == normalize(s)\<close>:
  normalizing is idempotent. The argument \<open>t\<close> ranges over the strings and
  \<^verbatim>\<open>None\<close>.
\<close>

theorem normalize_idempotent: "normalize (Some (normalize t)) = normalize t"
  by (rule normalize_clean_id) (rule clean_normalize)

theorem normalize_idempotent_witness:
  "normalize (Some ''  G/L -- Acct:  Foo,Bar '') = ''g l acct foo,bar''
   \<and> normalize (Some ''g l acct foo,bar'') = ''g l acct foo,bar''"
proof -
  have a: "normalize (Some ''  G/L -- Acct:  Foo,Bar '') = ''g l acct foo,bar''"
    by code_simp
  show ?thesis
    using normalize_idempotent [of "Some ''  G/L -- Acct:  Foo,Bar ''"] a by simp
qed

text \<open>
  Claim C7. For every string \<open>s\<close>, \<^verbatim>\<open>normalize(s)\<close> contains only lowercase ASCII
  letters, digits, spaces and commas; no slash and no hyphen survives; no two
  neighbouring characters are both whitespace; and the text neither starts nor ends
  with whitespace.
\<close>

theorem normalize_alphabet:
  "(\<forall>c \<in> set (normalize t). is_lower_az c \<or> is_digit c \<or> c = CHR '' '' \<or> c = CHR '','')
   \<and> CHR ''/'' \<notin> set (normalize t)
   \<and> CHR ''-'' \<notin> set (normalize t)
   \<and> (\<forall>i. Suc i < length (normalize t)
          \<longrightarrow> \<not> (is_space (normalize t ! i) \<and> is_space (normalize t ! Suc i)))
   \<and> (normalize t \<noteq> []
          \<longrightarrow> \<not> is_space (hd (normalize t)) \<and> \<not> is_space (last (normalize t)))"
proof -
  have c: "clean (normalize t)" by (rule clean_normalize)
  then have oc: "\<forall>c \<in> set (normalize t). out_char c" by (simp add: clean_def)
  then have 1: "\<forall>c \<in> set (normalize t). is_lower_az c \<or> is_digit c \<or> c = CHR '' '' \<or> c = CHR '','' "
    by (simp add: out_char_def)
  have 2: "CHR ''/'' \<notin> set (normalize t)" using oc out_char_not_slash by blast
  have 3: "CHR ''-'' \<notin> set (normalize t)" using oc out_char_not_slash by blast
  have nd: "no_double_space (normalize t)" using c by (simp add: clean_def)
  have 4: "\<forall>i. Suc i < length (normalize t)
          \<longrightarrow> \<not> (is_space (normalize t ! i) \<and> is_space (normalize t ! Suc i))"
    using no_double_space_nth [OF nd] by blast
  have 5: "normalize t \<noteq> []
          \<longrightarrow> \<not> is_space (hd (normalize t)) \<and> \<not> is_space (last (normalize t))"
    using c by (auto simp: clean_def)
  from 1 2 3 4 5 show ?thesis by blast
qed

theorem normalize_alphabet_witness:
  "normalize (Some '' Cost-Center/Dept  (A,B)! '') = ''cost center dept a,b''
   \<and> CHR ''/'' \<notin> set (normalize (Some '' Cost-Center/Dept  (A,B)! ''))
   \<and> CHR ''-'' \<notin> set (normalize (Some '' Cost-Center/Dept  (A,B)! ''))
   \<and> \<not> (is_space (normalize (Some '' Cost-Center/Dept  (A,B)! '') ! 4)
          \<and> is_space (normalize (Some '' Cost-Center/Dept  (A,B)! '') ! Suc 4))
   \<and> \<not> is_space (hd (normalize (Some '' Cost-Center/Dept  (A,B)! '')))
   \<and> \<not> is_space (last (normalize (Some '' Cost-Center/Dept  (A,B)! '')))"
proof -
  have a: "normalize (Some '' Cost-Center/Dept  (A,B)! '') = ''cost center dept a,b''"
    by code_simp
  have b: "Suc 4 < length (normalize (Some '' Cost-Center/Dept  (A,B)! ''))"
    by (simp add: a)
  have n: "normalize (Some '' Cost-Center/Dept  (A,B)! '') \<noteq> []"
    by (simp add: a)
  show ?thesis
    using normalize_alphabet [of "Some '' Cost-Center/Dept  (A,B)! ''"] a b n by blast
qed

subsection \<open>Tokens\<close>

lemma normalize_None: "normalize None = []"
  by (simp add: normalize_def or_empty_def lower_def strip_def sub_other_def replace_char_def)

lemma normalize_empty: "normalize (Some []) = []"
  by (simp add: normalize_def or_empty_def lower_def strip_def sub_other_def replace_char_def)

lemma split_ws_Nil: "split_ws [] = []"
  by (simp add: split_ws.simps)

lemma token_not_stopword: "w \<in> tokenize t \<Longrightarrow> w \<notin> STOPWORDS \<and> 3 \<le> length w"
  by (simp add: tokenize_def Let_def)

lemma split_ws_words:
  "w \<in> set (split_ws s) \<Longrightarrow> w \<noteq> [] \<and> (\<forall>c \<in> set w. \<not> is_space c) \<and> sublist w s"
proof (induction s rule: split_ws.induct)
  case (1 s)
  show ?case
  proof (cases "dropWhile is_space s")
    case Nil
    with 1(2) show ?thesis by (simp add: split_ws.simps [of s])
  next
    case (Cons c cs)
    let ?w = "c # takeWhile (\<lambda>x. \<not> is_space x) cs"
    let ?rest = "dropWhile (\<lambda>x. \<not> is_space x) cs"
    have sp: "split_ws s = ?w # split_ws ?rest"
      by (simp add: split_ws.simps [of s] Cons)
    have s: "s = takeWhile is_space s @ ?w @ ?rest"
    proof -
      have "s = takeWhile is_space s @ dropWhile is_space s" by simp
      also have "dropWhile is_space s = c # (takeWhile (\<lambda>x. \<not> is_space x) cs @ ?rest)"
        by (simp add: Cons)
      finally show ?thesis by simp
    qed
    have c: "\<not> is_space c"
      using hd_dropWhile [of is_space s] Cons by simp
    from 1(2) sp have "w = ?w \<or> w \<in> set (split_ws ?rest)" by simp
    then show ?thesis
    proof
      assume w: "w = ?w"
      have a: "w \<noteq> []" using w by simp
      have b: "\<forall>x \<in> set w. \<not> is_space x"
        using w c by (auto dest: set_takeWhileD)
      have "sublist ?w s" using s by (metis sublist_appendI)
      with a b w show ?thesis by simp
    next
      assume "w \<in> set (split_ws ?rest)"
      with 1(1) Cons have ih: "w \<noteq> [] \<and> (\<forall>c \<in> set w. \<not> is_space c) \<and> sublist w ?rest"
        by blast
      have "suffix ?rest s"
      proof -
        have "s = (takeWhile is_space s @ ?w) @ ?rest" using s by simp
        then show ?thesis by (rule suffixI)
      qed
      then have "sublist ?rest s" by (rule suffix_imp_sublist)
      with ih have "sublist w s" by (meson sublist_order.order_trans)
      with ih show ?thesis by simp
    qed
  qed
qed

text \<open>
  Claim C8. For every string \<open>s\<close>, \<^verbatim>\<open>tokenize(s)\<close> is the set of the
  whitespace-split words of \<^verbatim>\<open>normalize(s)\<close> that have at least 3 characters and are
  not stopwords; \<^verbatim>\<open>tokenize\<close> of the empty string and of \<^verbatim>\<open>None\<close> is the empty
  set; and no stopword \<open>w\<close> is a member of \<^verbatim>\<open>tokenize(w)\<close>, nor of the tokens of
  any other text. Each token is a piece of the normalized text with no whitespace in it.
\<close>

theorem tokenize_spec:
  "tokenize t = {w \<in> set (split_ws (normalize t)). 3 \<le> length w \<and> w \<notin> STOPWORDS}
   \<and> tokenize None = {}
   \<and> tokenize (Some []) = {}
   \<and> (\<forall>w \<in> STOPWORDS. w \<notin> tokenize (Some w))
   \<and> (\<forall>w \<in> STOPWORDS. w \<notin> tokenize t)
   \<and> (\<forall>w \<in> tokenize t. (\<forall>c \<in> set w. \<not> is_space c) \<and> sublist w (normalize t))"
proof -
  have 1: "tokenize t = {w \<in> set (split_ws (normalize t)). 3 \<le> length w \<and> w \<notin> STOPWORDS}"
    by (simp add: tokenize_def Let_def)
  have 2: "tokenize None = {}"
    by (simp add: tokenize_def Let_def normalize_None split_ws_Nil)
  have 3: "tokenize (Some []) = {}"
    by (simp add: tokenize_def Let_def normalize_empty split_ws_Nil)
  have 4: "\<forall>w \<in> STOPWORDS. w \<notin> tokenize (Some w)"
    using token_not_stopword by blast
  have 5: "\<forall>w \<in> STOPWORDS. w \<notin> tokenize t"
    using token_not_stopword by blast
  have 6: "\<forall>w \<in> tokenize t. (\<forall>c \<in> set w. \<not> is_space c) \<and> sublist w (normalize t)"
  proof
    fix w assume "w \<in> tokenize t"
    then have "w \<in> set (split_ws (normalize t))" by (simp add: tokenize_def Let_def)
    then have "w \<noteq> [] \<and> (\<forall>c \<in> set w. \<not> is_space c) \<and> sublist w (normalize t)"
      by (rule split_ws_words)
    then show "(\<forall>c \<in> set w. \<not> is_space c) \<and> sublist w (normalize t)" by (rule conjunct2)
  qed
  from 1 2 3 4 5 6 show ?thesis by (intro conjI)
qed

theorem tokenize_spec_witness:
  "tokenize (Some ''Where can I find agency delivery zone codes?'')
     = {''agency'', ''delivery'', ''zone'', ''codes''}
   \<and> ''the'' \<in> STOPWORDS
   \<and> ''the'' \<notin> tokenize (Some ''the'')
   \<and> ''find'' \<notin> tokenize (Some ''Where can I find agency delivery zone codes?'')"
proof -
  have a: "tokenize (Some ''Where can I find agency delivery zone codes?'')
     = {''agency'', ''delivery'', ''zone'', ''codes''}"
    by code_simp
  have s: "''the'' \<in> STOPWORDS" by (simp add: STOPWORDS_def)
  have f: "''find'' \<in> STOPWORDS" by (simp add: STOPWORDS_def)
  note t = tokenize_spec [of "Some ''Where can I find agency delivery zone codes?''"]
  from t have 4: "\<forall>w \<in> STOPWORDS. w \<notin> tokenize (Some w)" by (elim conjE)
  from t have 5: "\<forall>w \<in> STOPWORDS.
      w \<notin> tokenize (Some ''Where can I find agency delivery zone codes?'')" by (elim conjE)
  from 4 s have b: "''the'' \<notin> tokenize (Some ''the'')" by (rule bspec)
  from 5 f have c: "''find'' \<notin> tokenize (Some ''Where can I find agency delivery zone codes?'')"
    by (rule bspec)
  from a s b c show ?thesis by (intro conjI)
qed

section \<open>Properties of the scorer\<close>

subsection \<open>The steps of a score\<close>

lemma entity_loop_find:
  "entity_loop hints q e (s, w) =
     (case find (matches q) hints of
        None \<Rightarrow> (s, w)
      | Some g \<Rightarrow> if fst g = e then (s + 4, w(''entity_bonus'' \<mapsto> 4)) else (s - 1, w))"
proof (induction hints)
  case Nil
  then show ?case by simp
next
  case (Cons g hints)
  obtain ent ws where g: "g = (ent, ws)" by (cases g)
  show ?case
  proof (cases "matches q g")
    case True
    then show ?thesis by (simp add: g matches_def)
  next
    case False
    with Cons show ?thesis by (simp add: g matches_def)
  qed
qed

lemma why_init:
  "[''syn_phrase_hit'' \<mapsto> 0, ''token_overlap'' \<mapsto> 0, ''entity_bonus'' \<mapsto> (0::int)]
     (''syn_phrase_hit'' \<mapsto> p, ''token_overlap'' \<mapsto> t) = explanation p t 0"
  by (rule ext) (simp add: explanation_def)

lemma explanation_bonus: "(explanation p t 0)(''entity_bonus'' \<mapsto> e) = explanation p t e"
  by (simp add: explanation_def)

lemma score_row_steps:
  "score_row q T row =
     entity_loop ENTITY_HINTS q (entity_of row)
       (best_phrase_of q row + tok_pts_of T row,
        explanation (best_phrase_of q row) (tok_pts_of T row) 0)"
  unfolding score_row_def Let_def
  by (simp only: why_init [symmetric] entity_of_def best_phrase_of_def tok_pts_of_def
        row_tokens_of_def synonyms_of_def add_0)

lemma score_row_cases:
  "score_row q T row =
     (case first_hint q of
        None \<Rightarrow> (best_phrase_of q row + tok_pts_of T row,
                 explanation (best_phrase_of q row) (tok_pts_of T row) 0)
      | Some g \<Rightarrow>
          if fst g = entity_of row
          then (best_phrase_of q row + tok_pts_of T row + 4,
                explanation (best_phrase_of q row) (tok_pts_of T row) 4)
          else (best_phrase_of q row + tok_pts_of T row - 1,
                explanation (best_phrase_of q row) (tok_pts_of T row) 0))"
  by (simp add: score_row_steps entity_loop_find first_hint_def explanation_bonus
        split: option.split)


lemma first_hint_first:
  "first_hint q = Some g \<Longrightarrow>
     matches q g \<and> (\<exists>pre post. ENTITY_HINTS = pre @ g # post \<and> (\<forall>h \<in> set pre. \<not> matches q h))"
proof -
  assume "first_hint q = Some g"
  then obtain i where i: "i < length ENTITY_HINTS" "matches q (ENTITY_HINTS ! i)"
      "g = ENTITY_HINTS ! i" "\<forall>j<i. \<not> matches q (ENTITY_HINTS ! j)"
    unfolding first_hint_def find_Some_iff by blast
  have split: "ENTITY_HINTS = take i ENTITY_HINTS @ g # drop (Suc i) ENTITY_HINTS"
    using i(1) i(3) by (simp add: id_take_nth_drop)
  have "\<forall>h \<in> set (take i ENTITY_HINTS). \<not> matches q h"
  proof
    fix h assume "h \<in> set (take i ENTITY_HINTS)"
    then obtain j where "j < i" "h = ENTITY_HINTS ! j"
      using i(1) by (auto simp: in_set_conv_nth)
    with i(4) show "\<not> matches q h" by simp
  qed
  with split i(2) i(3) show ?thesis by blast
qed

lemma first_hint_none: "(first_hint q = None) = (\<forall>g \<in> set ENTITY_HINTS. \<not> matches q g)"
  by (auto simp: first_hint_def find_None_iff)

lemma entity_loop_stops:
  "matches q g \<Longrightarrow> \<forall>h \<in> set pre. \<not> matches q h \<Longrightarrow>
     entity_loop (pre @ g # post) q e st = entity_loop [g] q e st"
proof (induction pre)
  case Nil
  obtain s w where st: "st = (s, w)" by (cases st)
  obtain ent ws where g: "g = (ent, ws)" by (cases g)
  from Nil show ?case by (simp add: st g matches_def)
next
  case (Cons h pre)
  obtain s w where st: "st = (s, w)" by (cases st)
  obtain ent ws where h: "h = (ent, ws)" by (cases h)
  from Cons show ?case by (simp add: st h matches_def)
qed

lemma hint_order: "map fst ENTITY_HINTS = [''agency'', ''donors'', ''vendors'', ''items'', ''ledger'']"
  by (simp add: ENTITY_HINTS_def)

lemma best_phrase_loop_max:
  "best_phrase_loop ps q b = Max (insert b (phrase_scores q ps))"
proof (induction ps arbitrary: b)
  case Nil
  then show ?case by (simp add: phrase_scores_def)
next
  case (Cons p ps)
  have fin: "finite (phrase_scores q ps)" by (simp add: phrase_scores_def)
  show ?case
  proof (cases "p \<noteq> [] \<and> sublist p q")
    case True
    then have "phrase_scores q (p # ps) = insert (8 + int (length p) div 10) (phrase_scores q ps)"
      by (auto simp: phrase_scores_def)
    moreover have "Max (insert (max b (8 + int (length p) div 10)) (phrase_scores q ps))
        = Max (insert b (insert (8 + int (length p) div 10) (phrase_scores q ps)))"
      using fin by (cases "phrase_scores q ps = {}") (simp_all add: max.assoc)
    ultimately show ?thesis using True Cons by simp
  next
    case False
    then have "phrase_scores q (p # ps) = phrase_scores q ps"
      by (auto simp: phrase_scores_def)
    with False Cons show ?thesis by auto
  qed
qed

lemma phrase_scores_ge: "x \<in> phrase_scores q ps \<Longrightarrow> 8 \<le> x"
  by (auto simp: phrase_scores_def)

lemma best_phrase_of_max:
  "best_phrase_of q row =
     (if phrase_scores q (phrase_list (Some (synonyms_of row))) = {} then 0
      else Max (phrase_scores q (phrase_list (Some (synonyms_of row)))))"
proof -
  let ?S = "phrase_scores q (phrase_list (Some (synonyms_of row)))"
  have fin: "finite ?S" by (simp add: phrase_scores_def)
  have b: "best_phrase_of q row = Max (insert 0 ?S)"
    by (simp add: best_phrase_of_def best_phrase_loop_max)
  show ?thesis
  proof (cases "?S = {}")
    case True
    with b show ?thesis by simp
  next
    case False
    then have "0 \<le> Max ?S" using fin phrase_scores_ge
      by (meson Max_in dual_order.trans zero_le_numeral)
    with False fin b show ?thesis by (simp add: max_def)
  qed
qed

lemma best_phrase_of_nonneg: "0 \<le> best_phrase_of q row"
proof -
  let ?S = "phrase_scores q (phrase_list (Some (synonyms_of row)))"
  have fin: "finite ?S" by (simp add: phrase_scores_def)
  have "best_phrase_of q row = Max (insert 0 ?S)"
    by (simp add: best_phrase_of_def best_phrase_loop_max)
  then show ?thesis using fin by simp
qed

lemma tok_pts_of_nonneg: "0 \<le> tok_pts_of T row"
  by (simp add: tok_pts_of_def)

lemma syn_component:
  "snd (score_row q T row) ''syn_phrase_hit'' = Some (best_phrase_of q row)"
  by (simp add: score_row_cases explanation_def split: option.split)

lemma tok_component:
  "snd (score_row q T row) ''token_overlap'' = Some (tok_pts_of T row)"
  by (simp add: score_row_cases explanation_def split: option.split)

lemma bonus_component:
  "snd (score_row q T row) ''entity_bonus'' =
     Some (case first_hint q of None \<Rightarrow> 0 | Some g \<Rightarrow> if fst g = entity_of row then 4 else 0)"
  by (simp add: score_row_cases explanation_def split: option.split)

lemma dom_explanation: "dom (explanation p t e) = {''syn_phrase_hit'', ''token_overlap'', ''entity_bonus''}"
  by (auto simp: explanation_def)

lemma dom_score_row:
  "dom (snd (score_row q T row)) = {''syn_phrase_hit'', ''token_overlap'', ''entity_bonus''}"
  by (simp add: score_row_cases dom_explanation split: option.split)

subsection \<open>The entity hint\<close>

text \<open>
  Claim C2. For every query and row, \<^verbatim>\<open>score_row\<close> adjusts the score by the first
  group of \<^verbatim>\<open>ENTITY_HINTS\<close>, in the order agency, donors, vendors, items, ledger, that
  has a trigger word in the normalized query: when the tag of that group is the
  normalized entity of the row, the score gains 4 and the explanation has
  \<^verbatim>\<open>entity_bonus\<close> 4; when it differs, the score loses 1 and the explanation is as
  without a hint; when no group has a trigger word in the query, nothing is added; and
  the groups after the first matching one are never looked at.
\<close>

theorem entity_hint_first_group:
  "score_row q T row =
     (case first_hint q of
        None \<Rightarrow> (best_phrase_of q row + tok_pts_of T row,
                 explanation (best_phrase_of q row) (tok_pts_of T row) 0)
      | Some g \<Rightarrow>
          if fst g = entity_of row
          then (best_phrase_of q row + tok_pts_of T row + 4,
                explanation (best_phrase_of q row) (tok_pts_of T row) 4)
          else (best_phrase_of q row + tok_pts_of T row - 1,
                explanation (best_phrase_of q row) (tok_pts_of T row) 0))
   \<and> map fst ENTITY_HINTS = [''agency'', ''donors'', ''vendors'', ''items'', ''ledger'']
   \<and> ((first_hint q = None) = (\<forall>h \<in> set ENTITY_HINTS. \<not> matches q h))
   \<and> (first_hint q = Some g \<longrightarrow>
        matches q g
        \<and> (\<exists>pre post. ENTITY_HINTS = pre @ g # post \<and> (\<forall>h \<in> set pre. \<not> matches q h)))
   \<and> (matches q g \<and> (\<forall>h \<in> set pre. \<not> matches q h) \<longrightarrow>
        entity_loop (pre @ g # post) q e st = entity_loop [g] q e st)"
proof (intro conjI impI)
  show "score_row q T row =
     (case first_hint q of
        None \<Rightarrow> (best_phrase_of q row + tok_pts_of T row,
                 explanation (best_phrase_of q row) (tok_pts_of T row) 0)
      | Some g \<Rightarrow>
          if fst g = entity_of row
          then (best_phrase_of q row + tok_pts_of T row + 4,
                explanation (best_phrase_of q row) (tok_pts_of T row) 4)
          else (best_phrase_of q row + tok_pts_of T row - 1,
                explanation (best_phrase_of q row) (tok_pts_of T row) 0))"
    by (rule score_row_cases)
  show "map fst ENTITY_HINTS = [''agency'', ''donors'', ''vendors'', ''items'', ''ledger'']"
    by (rule hint_order)
  show "(first_hint q = None) = (\<forall>h \<in> set ENTITY_HINTS. \<not> matches q h)"
    by (rule first_hint_none)
next
  assume "first_hint q = Some g"
  then have f: "matches q g \<and> (\<exists>pre post. ENTITY_HINTS = pre @ g # post \<and> (\<forall>h \<in> set pre. \<not> matches q h))"
    by (rule first_hint_first)
  from f show "matches q g" by (rule conjunct1)
  from f show "\<exists>pre post. ENTITY_HINTS = pre @ g # post \<and> (\<forall>h \<in> set pre. \<not> matches q h)"
    by (rule conjunct2)
next
  assume "matches q g \<and> (\<forall>h \<in> set pre. \<not> matches q h)"
  then show "entity_loop (pre @ g # post) q e st = entity_loop [g] q e st"
    using entity_loop_stops by blast
qed

theorem entity_hint_first_group_witness:
  "first_hint ''agency donors'' = Some (''agency'', [''agency'', ''agencies''])
   \<and> matches ''agency donors'' (''donors'', [''donor'', ''donors''])
   \<and> entity_of ex_row_agency = ''agency''
   \<and> entity_of ex_row_donor = ''donors''
   \<and> score_row ''agency donors'' {} ex_row_agency = (4, explanation 0 0 4)
   \<and> score_row ''agency donors'' {} ex_row_donor = (- 1, explanation 0 0 0)
   \<and> entity_loop ([] @ (''agency'', [''agency'', ''agencies'']) # tl ENTITY_HINTS)
         ''agency donors'' ''donors'' (0, explanation 0 0 0)
       = entity_loop [(''agency'', [''agency'', ''agencies''])]
         ''agency donors'' ''donors'' (0, explanation 0 0 0)"
proof -
  have f: "first_hint ''agency donors'' = Some (''agency'', [''agency'', ''agencies''])"
    by code_simp
  have m: "matches ''agency donors'' (''donors'', [''donor'', ''donors''])"
    by (simp add: matches_def sublist_code)
  have ma: "matches ''agency donors'' (''agency'', [''agency'', ''agencies''])"
    by (simp add: matches_def sublist_code)
  have ea: "entity_of ex_row_agency = ''agency''" by code_simp
  have ed: "entity_of ex_row_donor = ''donors''" by code_simp
  have ba: "best_phrase_of ''agency donors'' ex_row_agency = 0" by code_simp
  have bd: "best_phrase_of ''agency donors'' ex_row_donor = 0" by code_simp
  have t: "\<And>r. tok_pts_of {} r = 0" by (simp add: tok_pts_of_def)
  have 1: "score_row ''agency donors'' {} ex_row_agency = (4, explanation 0 0 4)"
    using entity_hint_first_group [of "''agency donors''" "{}" ex_row_agency]
    by (simp add: f ea ba t)
  have 2: "score_row ''agency donors'' {} ex_row_donor = (- 1, explanation 0 0 0)"
    using entity_hint_first_group [of "''agency donors''" "{}" ex_row_donor]
    by (simp add: f ed bd t)
  have 3: "entity_loop ([] @ (''agency'', [''agency'', ''agencies'']) # tl ENTITY_HINTS)
         ''agency donors'' ''donors'' (0, explanation 0 0 0)
       = entity_loop [(''agency'', [''agency'', ''agencies''])]
         ''agency donors'' ''donors'' (0, explanation 0 0 0)"
    using entity_hint_first_group [of "''agency donors''" "{}" ex_row_donor
        "(''agency'', [''agency'', ''agencies''])" "[]" "tl ENTITY_HINTS" "''donors''"
        "(0, explanation 0 0 0)"] ma
    by simp
  from f m ea ed 1 2 3 show ?thesis by (intro conjI)
qed

subsection \<open>The synonym phrases\<close>

lemma ex_query_norm: "normalize (Some ex_query) = ''where can i find agency delivery zone codes''"
  by code_simp

lemma zone_in_query: "sublist ''delivery zone'' (normalize (Some ex_query))"
  unfolding ex_query_norm by (simp add: sublist_code)

lemma phrase_scores_finite: "finite (phrase_scores q ps)"
  by (simp add: phrase_scores_def)

lemma phrase_scores_zone:
  assumes "''delivery zone'' \<in> set ps"
  shows "9 \<in> phrase_scores (normalize (Some ex_query)) ps"
proof -
  have "''delivery zone'' \<in> {p \<in> set ps. p \<noteq> [] \<and> sublist p (normalize (Some ex_query))}"
    using assms zone_in_query by simp
  then have "8 + int (length ''delivery zone'') div 10 \<in> phrase_scores (normalize (Some ex_query)) ps"
    unfolding phrase_scores_def by (rule imageI)
  then show ?thesis by simp
qed

lemma phrase_scores_short:
  assumes "\<forall>p \<in> set ps. sublist p q \<longrightarrow> length p < 20"
    and "x \<in> phrase_scores q ps"
  shows "x \<le> 9"
proof -
  from assms(2) obtain p where p: "p \<in> set ps" "sublist p q" "x = 8 + int (length p) div 10"
    by (auto simp: phrase_scores_def)
  with assms(1) have "length p < 20" by blast
  then have "int (length p) div 10 \<le> 1" by simp
  with p(3) show ?thesis by simp
qed

text \<open>
  Claim C3, as amended. For every query and row, the synonym-phrase component of
  \<^verbatim>\<open>score_row\<close> is the maximum of \<^verbatim>\<open>8 + floor(len(p) / 10)\<close> over the phrases
  \<open>p\<close> of \<^verbatim>\<open>phrase_list\<close> of the synonyms of the row that are non-empty substrings of
  the normalized query, and 0 when no phrase matches. For the query "Where can I find
  agency delivery zone codes?" and a row whose phrases include "delivery zone", the
  component is at least 9, and it is exactly 9 when no phrase of 20 or more characters
  of the row is a substring of the query.
\<close>

theorem syn_phrase_component:
  "snd (score_row q T row) ''syn_phrase_hit'' =
     Some (if phrase_scores q (phrase_list (Some (synonyms_of row))) = {} then 0
           else Max (phrase_scores q (phrase_list (Some (synonyms_of row)))))
   \<and> (''delivery zone'' \<in> set (phrase_list (Some (synonyms_of row))) \<longrightarrow>
        (\<exists>v. snd (score_row (normalize (Some ex_query)) T row) ''syn_phrase_hit'' = Some v
             \<and> 9 \<le> v
             \<and> ((\<forall>p \<in> set (phrase_list (Some (synonyms_of row))).
                    sublist p (normalize (Some ex_query)) \<longrightarrow> length p < 20)
                 \<longrightarrow> v = 9)))"
proof (intro conjI impI)
  show "snd (score_row q T row) ''syn_phrase_hit'' =
     Some (if phrase_scores q (phrase_list (Some (synonyms_of row))) = {} then 0
           else Max (phrase_scores q (phrase_list (Some (synonyms_of row)))))"
    by (simp only: syn_component best_phrase_of_max)
next
  let ?Q = "normalize (Some ex_query)"
  let ?ps = "phrase_list (Some (synonyms_of row))"
  let ?S = "phrase_scores ?Q ?ps"
  assume z: "''delivery zone'' \<in> set ?ps"
  then have in9: "9 \<in> ?S" by (rule phrase_scores_zone)
  then have ne: "?S \<noteq> {}" by blast
  have v: "snd (score_row ?Q T row) ''syn_phrase_hit'' = Some (Max ?S)"
    using ne by (simp only: syn_component best_phrase_of_max if_False)
  have ge: "9 \<le> Max ?S"
    using in9 phrase_scores_finite by (rule Max_ge [rotated])
  have eq: "(\<forall>p \<in> set ?ps. sublist p ?Q \<longrightarrow> length p < 20) \<longrightarrow> Max ?S = 9"
  proof
    assume short: "\<forall>p \<in> set ?ps. sublist p ?Q \<longrightarrow> length p < 20"
    have "Max ?S \<in> ?S" using phrase_scores_finite ne by (rule Max_in)
    with short have "Max ?S \<le> 9" by (rule phrase_scores_short)
    with ge show "Max ?S = 9" by simp
  qed
  from v ge eq
  show "\<exists>v. snd (score_row ?Q T row) ''syn_phrase_hit'' = Some v \<and> 9 \<le> v
        \<and> ((\<forall>p \<in> set ?ps. sublist p ?Q \<longrightarrow> length p < 20) \<longrightarrow> v = 9)"
    by blast
qed

theorem syn_phrase_component_witness:
  "phrase_list (Some (synonyms_of ex_row_agency)) = [''delivery zone'']
   \<and> ''delivery zone'' \<in> set (phrase_list (Some (synonyms_of ex_row_agency)))
   \<and> snd (score_row (normalize (Some ex_query)) (tokenize (Some ex_query)) ex_row_agency)
         ''syn_phrase_hit'' = Some 9"
proof -
  have p: "phrase_list (Some (synonyms_of ex_row_agency)) = [''delivery zone'']"
    by code_simp
  have a: "''delivery zone'' \<in> set (phrase_list (Some (synonyms_of ex_row_agency)))"
    by (simp add: p)
  have b: "\<forall>p \<in> set (phrase_list (Some (synonyms_of ex_row_agency))).
         sublist p (normalize (Some ex_query)) \<longrightarrow> length p < 20"
    by (simp add: p)
  have c: "snd (score_row (normalize (Some ex_query)) (tokenize (Some ex_query)) ex_row_agency)
         ''syn_phrase_hit'' = Some 9"
  proof -
    note t = syn_phrase_component
      [of "normalize (Some ex_query)" "tokenize (Some ex_query)" ex_row_agency]
    from t a obtain v where
      v: "snd (score_row (normalize (Some ex_query)) (tokenize (Some ex_query)) ex_row_agency)
            ''syn_phrase_hit'' = Some v"
      and e: "(\<forall>p \<in> set (phrase_list (Some (synonyms_of ex_row_agency))).
                 sublist p (normalize (Some ex_query)) \<longrightarrow> length p < 20) \<longrightarrow> v = 9"
      by blast
    from e b have "v = 9" by (rule mp)
    with v show ?thesis by simp
  qed
  from p a c show ?thesis by (intro conjI)
qed

text \<open>
  The claim as it was stated asks for exactly 9 on every row whose synonyms contain
  "delivery zone". A row that also lists "agency delivery zone", 20 characters long
  and a substring of the query, has the component 10.
\<close>

theorem syn_phrase_component_counterexample:
  "''delivery zone'' \<in> set (phrase_list (Some (synonyms_of ex_row_long)))
   \<and> snd (score_row (normalize (Some ex_query)) (tokenize (Some ex_query)) ex_row_long)
         ''syn_phrase_hit'' = Some 10"
proof -
  have p: "phrase_list (Some (synonyms_of ex_row_long)) = [''delivery zone'', ''agency delivery zone'']"
    by code_simp
  have a: "''delivery zone'' \<in> set (phrase_list (Some (synonyms_of ex_row_long)))"
    by (simp add: p)
  have b: "best_phrase_of (normalize (Some ex_query)) ex_row_long = 10"
    by code_simp
  have c: "snd (score_row (normalize (Some ex_query)) (tokenize (Some ex_query)) ex_row_long)
         ''syn_phrase_hit'' = Some 10"
    by (simp only: syn_component b)
  from a c show ?thesis by (intro conjI)
qed

subsection \<open>The score and its explanation\<close>

lemma explanation_inject:
  "explanation p t e = explanation p' t' e' \<Longrightarrow> p = p' \<and> t = t' \<and> e = e'"
proof -
  assume h: "explanation p t e = explanation p' t' e'"
  have "explanation p t e ''syn_phrase_hit'' = explanation p' t' e' ''syn_phrase_hit''"
    using h by simp
  then have 1: "p = p'" by (simp add: explanation_def)
  have "explanation p t e ''token_overlap'' = explanation p' t' e' ''token_overlap''"
    using h by simp
  then have 2: "t = t'" by (simp add: explanation_def)
  have "explanation p t e ''entity_bonus'' = explanation p' t' e' ''entity_bonus''"
    using h by simp
  then have 3: "e = e'" by (simp add: explanation_def)
  from 1 2 3 show ?thesis by simp
qed

lemma ex_agency_donors:
  "score_row (normalize (Some ''agency donors'')) (tokenize (Some ''agency donors'')) ex_row_agency
     = (6, explanation 0 2 4)"
proof -
  have n: "normalize (Some ''agency donors'') = ''agency donors''" by code_simp
  have f: "first_hint ''agency donors'' = Some (''agency'', [''agency'', ''agencies''])"
    by code_simp
  have e: "entity_of ex_row_agency = ''agency''" by code_simp
  have b: "best_phrase_of ''agency donors'' ex_row_agency = 0" by code_simp
  have t: "tok_pts_of (tokenize (Some ''agency donors'')) ex_row_agency = 2" by code_simp
  show ?thesis by (simp add: score_row_cases n f e b t)
qed

lemma ex_ledger_donor:
  "score_row (normalize (Some ''ledger accounts'')) (tokenize (Some ''ledger accounts'')) ex_row_donor
     = (- 1, explanation 0 0 0)"
proof -
  have n: "normalize (Some ''ledger accounts'') = ''ledger accounts''" by code_simp
  have f: "first_hint ''ledger accounts'' =
      Some (''ledger'', [''gl'', ''g/l'', ''ledger'', ''general ledger'', ''journal''])"
    by code_simp
  have e: "entity_of ex_row_donor = ''donors''" by code_simp
  have b: "best_phrase_of ''ledger accounts'' ex_row_donor = 0" by code_simp
  have t: "tok_pts_of (tokenize (Some ''ledger accounts'')) ex_row_donor = 0" by code_simp
  show ?thesis by (simp add: score_row_cases n f e b t)
qed

text \<open>
  Claim C10, as amended. For every query and row, the explanation returned by
  \<^verbatim>\<open>score_row\<close> has exactly the keys \<^verbatim>\<open>syn_phrase_hit\<close>, \<^verbatim>\<open>token_overlap\<close>
  and \<^verbatim>\<open>entity_bonus\<close>, each with a value that is not negative; the score is the
  sum of the three values minus 1 exactly when the first group of the table with a
  trigger word in the query has a tag other than the entity of the row, and the sum
  otherwise; so no score is below -1.
\<close>

theorem score_is_sum:
  "dom (snd (score_row q T row)) = {''syn_phrase_hit'', ''token_overlap'', ''entity_bonus''}
   \<and> (\<exists>p t e. snd (score_row q T row) = explanation p t e
         \<and> 0 \<le> p \<and> 0 \<le> t \<and> 0 \<le> e
         \<and> fst (score_row q T row) =
             p + t + e - (if \<exists>g. first_hint q = Some g \<and> fst g \<noteq> entity_of row then 1 else 0))
   \<and> - 1 \<le> fst (score_row q T row)"
proof -
  let ?p = "best_phrase_of q row"
  let ?t = "tok_pts_of T row"
  have p: "0 \<le> ?p" by (rule best_phrase_of_nonneg)
  have t: "0 \<le> ?t" by (rule tok_pts_of_nonneg)
  have d: "dom (snd (score_row q T row)) = {''syn_phrase_hit'', ''token_overlap'', ''entity_bonus''}"
    by (rule dom_score_row)
  show ?thesis
  proof (cases "first_hint q")
    case None
    then have s: "score_row q T row = (?p + ?t, explanation ?p ?t 0)"
      by (simp add: score_row_cases)
    have "snd (score_row q T row) = explanation ?p ?t 0 \<and> 0 \<le> ?p \<and> 0 \<le> ?t \<and> (0::int) \<le> 0
        \<and> fst (score_row q T row) =
             ?p + ?t + 0 - (if \<exists>g. first_hint q = Some g \<and> fst g \<noteq> entity_of row then 1 else 0)"
      using p t by (simp add: s None)
    then have e: "\<exists>p t e. snd (score_row q T row) = explanation p t e
         \<and> 0 \<le> p \<and> 0 \<le> t \<and> 0 \<le> e
         \<and> fst (score_row q T row) =
             p + t + e - (if \<exists>g. first_hint q = Some g \<and> fst g \<noteq> entity_of row then 1 else 0)"
      by blast
    have "- 1 \<le> fst (score_row q T row)" using p t by (simp add: s)
    with d e show ?thesis by (intro conjI)
  next
    case (Some g)
    show ?thesis
    proof (cases "fst g = entity_of row")
      case True
      then have s: "score_row q T row = (?p + ?t + 4, explanation ?p ?t 4)"
        by (simp add: score_row_cases Some)
      have "snd (score_row q T row) = explanation ?p ?t 4 \<and> 0 \<le> ?p \<and> 0 \<le> ?t \<and> (0::int) \<le> 4
        \<and> fst (score_row q T row) =
             ?p + ?t + 4 - (if \<exists>g. first_hint q = Some g \<and> fst g \<noteq> entity_of row then 1 else 0)"
        using p t True by (simp add: s Some)
      then have e: "\<exists>p t e. snd (score_row q T row) = explanation p t e
         \<and> 0 \<le> p \<and> 0 \<le> t \<and> 0 \<le> e
         \<and> fst (score_row q T row) =
             p + t + e - (if \<exists>g. first_hint q = Some g \<and> fst g \<noteq> entity_of row then 1 else 0)"
        by blast
      have "- 1 \<le> fst (score_row q T row)" using p t by (simp add: s)
      with d e show ?thesis by (intro conjI)
    next
      case False
      then have s: "score_row q T row = (?p + ?t - 1, explanation ?p ?t 0)"
        by (simp add: score_row_cases Some)
      have "snd (score_row q T row) = explanation ?p ?t 0 \<and> 0 \<le> ?p \<and> 0 \<le> ?t \<and> (0::int) \<le> 0
        \<and> fst (score_row q T row) =
             ?p + ?t + 0 - (if \<exists>g. first_hint q = Some g \<and> fst g \<noteq> entity_of row then 1 else 0)"
        using p t False by (simp add: s Some)
      then have e: "\<exists>p t e. snd (score_row q T row) = explanation p t e
         \<and> 0 \<le> p \<and> 0 \<le> t \<and> 0 \<le> e
         \<and> fst (score_row q T row) =
             p + t + e - (if \<exists>g. first_hint q = Some g \<and> fst g \<noteq> entity_of row then 1 else 0)"
        by blast
      have "- 1 \<le> fst (score_row q T row)" using p t by (simp add: s)
      with d e show ?thesis by (intro conjI)
    qed
  qed
qed

theorem score_is_sum_witness:
  "first_hint (normalize (Some ''ledger accounts''))
     = Some (''ledger'', [''gl'', ''g/l'', ''ledger'', ''general ledger'', ''journal''])
   \<and> entity_of ex_row_donor = ''donors''
   \<and> score_row (normalize (Some ''ledger accounts'')) (tokenize (Some ''ledger accounts''))
         ex_row_donor = (- 1, explanation 0 0 0)
   \<and> dom (snd (score_row (normalize (Some ''ledger accounts''))
         (tokenize (Some ''ledger accounts'')) ex_row_donor))
       = {''syn_phrase_hit'', ''token_overlap'', ''entity_bonus''}
   \<and> fst (score_row (normalize (Some ''ledger accounts'')) (tokenize (Some ''ledger accounts''))
         ex_row_donor) = 0 + 0 + 0 - 1"
proof -
  let ?q = "normalize (Some ''ledger accounts'')"
  let ?T = "tokenize (Some ''ledger accounts'')"
  have f: "first_hint ?q = Some (''ledger'', [''gl'', ''g/l'', ''ledger'', ''general ledger'', ''journal''])"
    by code_simp
  have ed: "entity_of ex_row_donor = ''donors''" by code_simp
  have x: "\<exists>g. first_hint ?q = Some g \<and> fst g \<noteq> entity_of ex_row_donor"
    by (simp add: f ed)
  note v = ex_ledger_donor
  note th = score_is_sum [of ?q ?T ex_row_donor]
  from th have d: "dom (snd (score_row ?q ?T ex_row_donor))
       = {''syn_phrase_hit'', ''token_overlap'', ''entity_bonus''}"
    by (rule conjunct1)
  from th have "\<exists>p t e. snd (score_row ?q ?T ex_row_donor) = explanation p t e
         \<and> 0 \<le> p \<and> 0 \<le> t \<and> 0 \<le> e
         \<and> fst (score_row ?q ?T ex_row_donor) =
             p + t + e - (if \<exists>g. first_hint ?q = Some g \<and> fst g \<noteq> entity_of ex_row_donor then 1 else 0)"
    by (elim conjE)
  then obtain p where "\<exists>t e. snd (score_row ?q ?T ex_row_donor) = explanation p t e
         \<and> 0 \<le> p \<and> 0 \<le> t \<and> 0 \<le> e
         \<and> fst (score_row ?q ?T ex_row_donor) =
             p + t + e - (if \<exists>g. first_hint ?q = Some g \<and> fst g \<noteq> entity_of ex_row_donor then 1 else 0)"
    ..
  then obtain t where "\<exists>e. snd (score_row ?q ?T ex_row_donor) = explanation p t e
         \<and> 0 \<le> p \<and> 0 \<le> t \<and> 0 \<le> e
         \<and> fst (score_row ?q ?T ex_row_donor) =
             p + t + e - (if \<exists>g. first_hint ?q = Some g \<and> fst g \<noteq> entity_of ex_row_donor then 1 else 0)"
    ..
  then obtain e where pq: "snd (score_row ?q ?T ex_row_donor) = explanation p t e
         \<and> 0 \<le> p \<and> 0 \<le> t \<and> 0 \<le> e
         \<and> fst (score_row ?q ?T ex_row_donor) =
             p + t + e - (if \<exists>g. first_hint ?q = Some g \<and> fst g \<noteq> entity_of ex_row_donor then 1 else 0)"
    ..
  from pq have w: "snd (score_row ?q ?T ex_row_donor) = explanation p t e"
    by (elim conjE)
  from pq have s: "fst (score_row ?q ?T ex_row_donor) =
       p + t + e - (if \<exists>g. first_hint ?q = Some g \<and> fst g \<noteq> entity_of ex_row_donor then 1 else 0)"
    by (elim conjE)
  from w v have "explanation p t e = explanation 0 0 0" by (simp only: snd_conv)
  then have pte: "p = 0 \<and> t = 0 \<and> e = 0" by (rule explanation_inject)
  from s x have "fst (score_row ?q ?T ex_row_donor) = p + t + e - 1" by (simp only: if_True)
  with pte have m: "fst (score_row ?q ?T ex_row_donor) = 0 + 0 + 0 - 1" by simp
  from f ed v d m show ?thesis by (intro conjI)
qed

text \<open>
  The claim as it was stated subtracts 1 whenever some group with a trigger word in the
  query has a tag other than the entity of the row. For the question "agency donors"
  and a row of the agency entity, the group of the donors is such a group, but the loop
  stops at the group of the agency: the score is 0 + 2 + 4, the sum of the three values.
\<close>

theorem score_is_sum_counterexample:
  "(''donors'', [''donor'', ''donors'']) \<in> set ENTITY_HINTS
   \<and> sublist ''donor'' (normalize (Some ''agency donors''))
   \<and> ''donors'' \<noteq> entity_of ex_row_agency
   \<and> score_row (normalize (Some ''agency donors'')) (tokenize (Some ''agency donors''))
         ex_row_agency = (6, explanation 0 2 4)
   \<and> (6::int) = 0 + 2 + 4"
proof -
  have 1: "(''donors'', [''donor'', ''donors'']) \<in> set ENTITY_HINTS"
    by (simp add: ENTITY_HINTS_def)
  have 2: "sublist ''donor'' (normalize (Some ''agency donors''))" by code_simp
  have 3: "''donors'' \<noteq> entity_of ex_row_agency" by code_simp
  note 4 = ex_agency_donors
  have 5: "(6::int) = 0 + 2 + 4" by simp
  from 1 2 3 4 5 show ?thesis by (intro conjI)
qed

subsection \<open>The trigger word with a slash\<close>

lemma no_slash_sublist: "CHR ''/'' \<notin> set s \<Longrightarrow> \<not> sublist ''g/l'' s"
proof
  assume n: "CHR ''/'' \<notin> set s" and "sublist ''g/l'' s"
  then obtain pre post where "s = pre @ ''g/l'' @ post" by (auto simp: sublist_def)
  then have "CHR ''/'' \<in> set s" by simp
  with n show False by simp
qed

lemma normalize_no_slash: "CHR ''/'' \<notin> set (normalize t)"
proof -
  have "\<forall>c \<in> set (normalize t). out_char c"
    using clean_normalize [of t] by (simp add: clean_def)
  then show ?thesis using out_char_not_slash by blast
qed

lemma gl_slash_never: "\<not> sublist ''g/l'' (normalize t)"
  by (rule no_slash_sublist) (rule normalize_no_slash)

lemma matches_without:
  "\<not> sublist w q \<Longrightarrow> matches q (ent, removeAll w ws) = matches q (ent, ws)"
  by (auto simp: matches_def)

lemma entity_loop_without:
  "\<not> sublist w q \<Longrightarrow>
     entity_loop (map (\<lambda>(ent, ws). (ent, removeAll w ws)) hints) q e st = entity_loop hints q e st"
proof (induction hints)
  case Nil
  then show ?case by simp
next
  case (Cons g hints)
  obtain ent ws where g: "g = (ent, ws)" by (cases g)
  obtain s y where st: "st = (s, y)" by (cases st)
  have ih: "entity_loop (map (\<lambda>(ent, ws). (ent, removeAll w ws)) hints) q e (s, y)
      = entity_loop hints q e (s, y)"
    using Cons by (simp add: st)
  have m: "(\<exists>x \<in> set (removeAll w ws). sublist x q) = (\<exists>x \<in> set ws. sublist x q)"
    using Cons(2) by auto
  have "entity_loop ((ent, removeAll w ws) # map (\<lambda>(ent, ws). (ent, removeAll w ws)) hints) q e (s, y)
      = entity_loop ((ent, ws) # hints) q e (s, y)"
    by (simp only: entity_loop.simps m ih)
  then show ?case by (simp add: g st)
qed

lemma ledger_group: "(''ledger'', [''gl'', ''g/l'', ''ledger'', ''general ledger'', ''journal'']) \<in> set ENTITY_HINTS"
  by (simp add: ENTITY_HINTS_def)

text \<open>
  Claim C9. For every query \<open>q\<close>, the trigger word \<^verbatim>\<open>g/l\<close> of the ledger group is
  never a substring of \<^verbatim>\<open>normalize(q)\<close>, so it is dead: the ledger group matches
  exactly when one of \<^verbatim>\<open>gl\<close>, \<^verbatim>\<open>ledger\<close>, \<^verbatim>\<open>general ledger\<close>,
  \<^verbatim>\<open>journal\<close> is a substring of the normalized query, the loop over the table gives
  the same result with the trigger word removed, and a query that names the ledger as
  \<^verbatim>\<open>g/l\<close> only gets no adjustment from the ledger group.
\<close>

theorem gl_slash_trigger_dead:
  "\<not> sublist ''g/l'' (normalize t)
   \<and> (''ledger'', [''gl'', ''g/l'', ''ledger'', ''general ledger'', ''journal'']) \<in> set ENTITY_HINTS
   \<and> matches (normalize t) (''ledger'', [''gl'', ''g/l'', ''ledger'', ''general ledger'', ''journal''])
       = (sublist ''gl'' (normalize t) \<or> sublist ''ledger'' (normalize t)
          \<or> sublist ''general ledger'' (normalize t) \<or> sublist ''journal'' (normalize t))
   \<and> entity_loop (map (\<lambda>(ent, ws). (ent, removeAll ''g/l'' ws)) ENTITY_HINTS) (normalize t) e st
       = entity_loop ENTITY_HINTS (normalize t) e st
   \<and> (\<not> sublist ''gl'' (normalize t) \<and> \<not> sublist ''ledger'' (normalize t)
        \<and> \<not> sublist ''general ledger'' (normalize t) \<and> \<not> sublist ''journal'' (normalize t)
       \<longrightarrow> \<not> matches (normalize t)
             (''ledger'', [''gl'', ''g/l'', ''ledger'', ''general ledger'', ''journal'']))"
proof -
  have 1: "\<not> sublist ''g/l'' (normalize t)" by (rule gl_slash_never)
  note 2 = ledger_group
  have 3: "matches (normalize t) (''ledger'', [''gl'', ''g/l'', ''ledger'', ''general ledger'', ''journal''])
       = (sublist ''gl'' (normalize t) \<or> sublist ''ledger'' (normalize t)
          \<or> sublist ''general ledger'' (normalize t) \<or> sublist ''journal'' (normalize t))"
    using 1 by (simp add: matches_def)
  have 4: "entity_loop (map (\<lambda>(ent, ws). (ent, removeAll ''g/l'' ws)) ENTITY_HINTS) (normalize t) e st
       = entity_loop ENTITY_HINTS (normalize t) e st"
    using 1 by (rule entity_loop_without)
  have 5: "\<not> sublist ''gl'' (normalize t) \<and> \<not> sublist ''ledger'' (normalize t)
        \<and> \<not> sublist ''general ledger'' (normalize t) \<and> \<not> sublist ''journal'' (normalize t)
       \<longrightarrow> \<not> matches (normalize t)
             (''ledger'', [''gl'', ''g/l'', ''ledger'', ''general ledger'', ''journal''])"
    using 3 by simp
  from 1 2 3 4 5 show ?thesis by (intro conjI)
qed

theorem gl_slash_trigger_dead_witness:
  "normalize (Some ''G/L codes'') = ''g l codes''
   \<and> \<not> sublist ''g/l'' (normalize (Some ''G/L codes''))
   \<and> \<not> matches (normalize (Some ''G/L codes''))
         (''ledger'', [''gl'', ''g/l'', ''ledger'', ''general ledger'', ''journal''])
   \<and> first_hint (normalize (Some ''G/L codes'')) = None"
proof -
  have n: "normalize (Some ''G/L codes'') = ''g l codes''" by code_simp
  have a: "\<not> sublist ''gl'' (normalize (Some ''G/L codes''))
      \<and> \<not> sublist ''ledger'' (normalize (Some ''G/L codes''))
      \<and> \<not> sublist ''general ledger'' (normalize (Some ''G/L codes''))
      \<and> \<not> sublist ''journal'' (normalize (Some ''G/L codes''))"
    unfolding n by (simp add: sublist_code)
  note th = gl_slash_trigger_dead [of "Some ''G/L codes''" "''ledger''" "(0, explanation 0 0 0)"]
  from th have b: "\<not> sublist ''g/l'' (normalize (Some ''G/L codes''))" by (rule conjunct1)
  from th have "\<not> sublist ''gl'' (normalize (Some ''G/L codes''))
        \<and> \<not> sublist ''ledger'' (normalize (Some ''G/L codes''))
        \<and> \<not> sublist ''general ledger'' (normalize (Some ''G/L codes''))
        \<and> \<not> sublist ''journal'' (normalize (Some ''G/L codes''))
       \<longrightarrow> \<not> matches (normalize (Some ''G/L codes''))
             (''ledger'', [''gl'', ''g/l'', ''ledger'', ''general ledger'', ''journal''])"
    by (rule conjunct2 [THEN conjunct2, THEN conjunct2, THEN conjunct2])
  from this a have c: "\<not> matches (normalize (Some ''G/L codes''))
         (''ledger'', [''gl'', ''g/l'', ''ledger'', ''general ledger'', ''journal''])"
    by (rule mp)
  have d: "first_hint (normalize (Some ''G/L codes'')) = None" by code_simp
  from n b c d show ?thesis by (intro conjI)
qed

section \<open>Properties of the ranking\<close>

lemma length_score_rows: "length (score_rows q df) = length df"
  by (simp add: score_rows_def Let_def)

lemma length_sort_scored: "length (sort_scored xs) = length xs"
  by (simp add: sort_scored_def)

lemma mset_sort_scored: "mset (sort_scored xs) = mset xs"
  by (simp add: sort_scored_def)

lemma rank_slice: "rank q df top_k = slice_to (sort_scored (score_rows q df)) top_k"
  by (simp add: rank_def Let_def)

lemma rows_of_score_rows: "map (\<lambda>x. snd (snd x)) (score_rows q df) = df"
  by (simp add: score_rows_def Let_def split_def comp_def)

lemma score_rows_perm: "mset df' = mset df \<Longrightarrow> mset (score_rows q df') = mset (score_rows q df)"
proof -
  assume h: "mset df' = mset df"
  have "\<And>d. mset (score_rows q d) = image_mset (\<lambda>row. case score_row (normalize (Some q)) (tokenize (Some q)) row of (s, why) \<Rightarrow> (s, why, row)) (mset d)"
    by (simp add: score_rows_def Let_def)
  with h show ?thesis by simp
qed

lemma sorted_desc: "sorted (map (\<lambda>x. - fst x) (sort_scored xs))"
  by (simp add: sort_scored_def)

lemma stable_ties: "filter (\<lambda>x. fst x = s) (sort_scored xs) = filter (\<lambda>x. fst x = s) xs"
proof -
  have "filter (\<lambda>x. - fst x = - s) (sort_key (\<lambda>x. - fst x) xs) = filter (\<lambda>x. - fst x = - s) xs"
    by (rule sort_key_stable)
  then show ?thesis by (simp add: sort_scored_def)
qed

lemma scores_sorted_perm:
  "mset xs = mset ys \<Longrightarrow> map fst (sort_scored xs) = map fst (sort_scored ys)"
proof -
  assume h: "mset xs = mset ys"
  let ?A = "map (\<lambda>x. - fst x) (sort_scored xs)"
  let ?B = "map (\<lambda>x. - fst x) (sort_scored ys)"
  have m: "mset ?A = mset ?B"
    using h by (simp add: mset_sort_scored)
  have a: "sorted ?A" by (rule sorted_desc)
  have b: "sorted ?B" by (rule sorted_desc)
  from m a have "sort ?B = ?A" by (rule properties_for_sort)
  moreover from b have "sort ?B = ?B" by (rule sorted_sort_id)
  ultimately have "?A = ?B" by simp
  then have "map uminus (map fst (sort_scored xs)) = map uminus (map fst (sort_scored ys))"
    by (simp add: comp_def)
  moreover have "inj (uminus :: int \<Rightarrow> int)" by (simp add: inj_on_def)
  ultimately show ?thesis by (simp only: inj_map_eq_map)
qed

lemma slice_to_all: "int (length xs) \<le> k \<Longrightarrow> slice_to xs k = xs"
  by (simp add: slice_to_def)

lemma length_slice_to: "0 < k \<Longrightarrow> length (slice_to xs k) = min (nat k) (length xs)"
  by (simp add: slice_to_def)

lemma map_slice_to: "map f (slice_to xs k) = slice_to (map f xs) k"
  by (simp add: slice_to_def take_map)

subsection \<open>The example rows, ranked\<close>

lemma ex_ledger_agency:
  "score_row (normalize (Some ''ledger accounts'')) (tokenize (Some ''ledger accounts'')) ex_row_agency
     = (- 1, explanation 0 0 0)"
proof -
  have n: "normalize (Some ''ledger accounts'') = ''ledger accounts''" by code_simp
  have f: "first_hint ''ledger accounts'' =
      Some (''ledger'', [''gl'', ''g/l'', ''ledger'', ''general ledger'', ''journal''])"
    by code_simp
  have e: "entity_of ex_row_agency = ''agency''" by code_simp
  have b: "best_phrase_of ''ledger accounts'' ex_row_agency = 0" by code_simp
  have t: "tok_pts_of (tokenize (Some ''ledger accounts'')) ex_row_agency = 0" by code_simp
  show ?thesis by (simp add: score_row_cases n f e b t)
qed

lemma ex_rows_differ: "ex_row_donor \<noteq> ex_row_agency"
proof
  assume "ex_row_donor = ex_row_agency"
  then have "ex_row_donor COL_ENTITY = ex_row_agency COL_ENTITY" by simp
  then show False
    by (simp add: ex_row_donor_def ex_row_agency_def COL_COMMON_def COL_KEYWORD_def
          COL_REPORT_def COL_FULLKEY_def COL_ENTITY_def COL_CANON_def COL_SYNONYMS_def)
qed

lemma ex_scored_da:
  "score_rows ''ledger accounts'' [ex_row_donor, ex_row_agency]
     = [(- 1, explanation 0 0 0, ex_row_donor), (- 1, explanation 0 0 0, ex_row_agency)]"
  by (simp add: score_rows_def Let_def ex_ledger_donor ex_ledger_agency)

lemma ex_scored_ad:
  "score_rows ''ledger accounts'' [ex_row_agency, ex_row_donor]
     = [(- 1, explanation 0 0 0, ex_row_agency), (- 1, explanation 0 0 0, ex_row_donor)]"
  by (simp add: score_rows_def Let_def ex_ledger_donor ex_ledger_agency)

lemma ex_rank_da:
  "rank ''ledger accounts'' [ex_row_donor, ex_row_agency] 1 = [(- 1, explanation 0 0 0, ex_row_donor)]"
  by (simp add: rank_slice ex_scored_da sort_scored_def slice_to_def)

lemma ex_rank_ad:
  "rank ''ledger accounts'' [ex_row_agency, ex_row_donor] 1 = [(- 1, explanation 0 0 0, ex_row_agency)]"
  by (simp add: rank_slice ex_scored_ad sort_scored_def slice_to_def)

lemma desc_iff: "sorted_wrt (\<ge>) (map fst xs) = sorted (map (\<lambda>x. - fst x) (xs :: scored list))"
  by (simp add: sorted_wrt_map)

subsection \<open>The size of the result\<close>

text \<open>
  Claim C5. For every query, dataset and positive \<^verbatim>\<open>top_k\<close>, the ranking returns at
  most \<^verbatim>\<open>top_k\<close> results and never more than the dataset has rows; when
  \<^verbatim>\<open>top_k\<close> is the size of the dataset or more, it returns every row once, nothing
  added; and on the empty dataset it returns the empty list. The model of the ranking
  has no error result: no statement of the block raises.
\<close>

theorem rank_size:
  "0 < top_k \<Longrightarrow>
     length (rank q df top_k) \<le> nat top_k
     \<and> length (rank q df top_k) \<le> length df
     \<and> (int (length df) \<le> top_k \<longrightarrow>
          length (rank q df top_k) = length df
          \<and> mset (map (\<lambda>x. snd (snd x)) (rank q df top_k)) = mset df)
     \<and> rank q [] top_k = []"
proof -
  assume k: "0 < top_k"
  let ?xs = "sort_scored (score_rows q df)"
  have l: "length ?xs = length df"
    by (simp add: length_sort_scored length_score_rows)
  have n: "length (rank q df top_k) = min (nat top_k) (length df)"
    using k by (simp add: rank_slice length_slice_to l)
  have 1: "length (rank q df top_k) \<le> nat top_k" using n by simp
  have 2: "length (rank q df top_k) \<le> length df" using n by simp
  have 3: "int (length df) \<le> top_k \<longrightarrow>
          length (rank q df top_k) = length df
          \<and> mset (map (\<lambda>x. snd (snd x)) (rank q df top_k)) = mset df"
  proof
    assume big: "int (length df) \<le> top_k"
    then have r: "rank q df top_k = ?xs"
      by (simp add: rank_slice slice_to_all l)
    have "mset (map (\<lambda>x. snd (snd x)) ?xs) = mset (map (\<lambda>x. snd (snd x)) (score_rows q df))"
      by (simp add: mset_sort_scored)
    then have "mset (map (\<lambda>x. snd (snd x)) ?xs) = mset df"
      by (simp only: rows_of_score_rows)
    with r l show "length (rank q df top_k) = length df
          \<and> mset (map (\<lambda>x. snd (snd x)) (rank q df top_k)) = mset df"
      by simp
  qed
  have 4: "rank q [] top_k = []"
    by (simp add: rank_slice score_rows_def sort_scored_def slice_to_def)
  from 1 2 3 4 show ?thesis by (intro conjI)
qed

theorem rank_size_witness:
  "(0::int) < 5
   \<and> length (rank ex_query [ex_row_donor, ex_row_agency] 5) = 2
   \<and> mset (map (\<lambda>x. snd (snd x)) (rank ex_query [ex_row_donor, ex_row_agency] 5))
       = mset [ex_row_donor, ex_row_agency]
   \<and> length (rank ex_query [ex_row_donor, ex_row_agency] 5) \<le> nat 5
   \<and> rank ex_query [] 5 = []"
proof -
  have k: "(0::int) < 5" by simp
  note th = rank_size [OF k, of ex_query "[ex_row_donor, ex_row_agency]"]
  from th have a: "length (rank ex_query [ex_row_donor, ex_row_agency] 5) \<le> nat 5"
    by (rule conjunct1)
  from th have "int (length [ex_row_donor, ex_row_agency]) \<le> 5 \<longrightarrow>
          length (rank ex_query [ex_row_donor, ex_row_agency] 5) = length [ex_row_donor, ex_row_agency]
          \<and> mset (map (\<lambda>x. snd (snd x)) (rank ex_query [ex_row_donor, ex_row_agency] 5))
              = mset [ex_row_donor, ex_row_agency]"
    by (rule conjunct2 [THEN conjunct2, THEN conjunct1])
  moreover have "int (length [ex_row_donor, ex_row_agency]) \<le> 5" by simp
  ultimately have b: "length (rank ex_query [ex_row_donor, ex_row_agency] 5) = length [ex_row_donor, ex_row_agency]
          \<and> mset (map (\<lambda>x. snd (snd x)) (rank ex_query [ex_row_donor, ex_row_agency] 5))
              = mset [ex_row_donor, ex_row_agency]"
    by (rule mp)
  from b have b1: "length (rank ex_query [ex_row_donor, ex_row_agency] 5) = 2" by simp
  from b have b2: "mset (map (\<lambda>x. snd (snd x)) (rank ex_query [ex_row_donor, ex_row_agency] 5))
       = mset [ex_row_donor, ex_row_agency]" by (rule conjunct2)
  from th have c: "rank ex_query [] 5 = []"
    by (rule conjunct2 [THEN conjunct2, THEN conjunct2])
  from k b1 b2 a c show ?thesis by (intro conjI)
qed

subsection \<open>Order and permutations\<close>

lemma row_scores_perm:
  "mset xs = mset ys \<Longrightarrow> row_scores xs = row_scores ys"
proof -
  assume "mset xs = mset ys"
  then have "image_mset (\<lambda>(s, w, r). (r, s)) (mset xs) = image_mset (\<lambda>(s, w, r). (r, s)) (mset ys)"
    by simp
  then show ?thesis by (simp add: row_scores_def)
qed

text \<open>
  Claim C4, as amended. For every query and dataset, the ranking sorts the scored rows
  by descending score, and rows of equal score keep the order of the dataset (a stable
  sort). For every permutation of the dataset, the sorted list of the permuted dataset
  has the same multiset of entries, with tied rows in the order of the permuted
  dataset; the ranking of the permuted dataset returns the same list of scores for
  every \<^verbatim>\<open>top_k\<close>, and the same multiset of (row, score) pairs when \<^verbatim>\<open>top_k\<close> is
  the size of the dataset or more.
\<close>

theorem rank_stable_sort:
  "rank q df top_k = slice_to (sort_scored (score_rows q df)) top_k
   \<and> sorted_wrt (\<ge>) (map fst (sort_scored (score_rows q df)))
   \<and> filter (\<lambda>x. fst x = s) (sort_scored (score_rows q df))
       = filter (\<lambda>x. fst x = s) (score_rows q df)
   \<and> map (\<lambda>x. snd (snd x)) (score_rows q df) = df
   \<and> (mset df' = mset df \<longrightarrow>
        mset (sort_scored (score_rows q df')) = mset (sort_scored (score_rows q df))
        \<and> filter (\<lambda>x. fst x = s) (sort_scored (score_rows q df'))
            = filter (\<lambda>x. fst x = s) (score_rows q df')
        \<and> map fst (rank q df' top_k) = map fst (rank q df top_k)
        \<and> (int (length df) \<le> top_k \<longrightarrow>
             row_scores (rank q df' top_k) = row_scores (rank q df top_k)))"
proof -
  have 1: "rank q df top_k = slice_to (sort_scored (score_rows q df)) top_k"
    by (rule rank_slice)
  have 2: "sorted_wrt (\<ge>) (map fst (sort_scored (score_rows q df)))"
    by (simp only: desc_iff sorted_desc)
  have 3: "filter (\<lambda>x. fst x = s) (sort_scored (score_rows q df))
       = filter (\<lambda>x. fst x = s) (score_rows q df)"
    by (rule stable_ties)
  have 4: "map (\<lambda>x. snd (snd x)) (score_rows q df) = df"
    by (rule rows_of_score_rows)
  have 5: "mset df' = mset df \<longrightarrow>
        mset (sort_scored (score_rows q df')) = mset (sort_scored (score_rows q df))
        \<and> filter (\<lambda>x. fst x = s) (sort_scored (score_rows q df'))
            = filter (\<lambda>x. fst x = s) (score_rows q df')
        \<and> map fst (rank q df' top_k) = map fst (rank q df top_k)
        \<and> (int (length df) \<le> top_k \<longrightarrow>
             row_scores (rank q df' top_k) = row_scores (rank q df top_k))"
  proof
    assume p: "mset df' = mset df"
    then have sp: "mset (score_rows q df') = mset (score_rows q df)"
      by (rule score_rows_perm)
    then have a: "mset (sort_scored (score_rows q df')) = mset (sort_scored (score_rows q df))"
      by (simp add: mset_sort_scored)
    have b: "filter (\<lambda>x. fst x = s) (sort_scored (score_rows q df'))
            = filter (\<lambda>x. fst x = s) (score_rows q df')"
      by (rule stable_ties)
    have "map fst (sort_scored (score_rows q df')) = map fst (sort_scored (score_rows q df))"
      using sp by (rule scores_sorted_perm)
    then have c: "map fst (rank q df' top_k) = map fst (rank q df top_k)"
      by (simp add: rank_slice map_slice_to)
    have d: "int (length df) \<le> top_k \<longrightarrow>
             row_scores (rank q df' top_k) = row_scores (rank q df top_k)"
    proof
      assume big: "int (length df) \<le> top_k"
      have "length df' = length df" using p by (rule mset_eq_length)
      with big have big': "int (length df') \<le> top_k" by simp
      have r: "rank q df top_k = sort_scored (score_rows q df)"
        using big by (simp add: rank_slice slice_to_all length_sort_scored length_score_rows)
      have r': "rank q df' top_k = sort_scored (score_rows q df')"
        using big' by (simp add: rank_slice slice_to_all length_sort_scored length_score_rows)
      from a have "row_scores (sort_scored (score_rows q df'))
          = row_scores (sort_scored (score_rows q df))"
        by (rule row_scores_perm)
      with r r' show "row_scores (rank q df' top_k) = row_scores (rank q df top_k)"
        by simp
    qed
    from a b c d show "mset (sort_scored (score_rows q df')) = mset (sort_scored (score_rows q df))
        \<and> filter (\<lambda>x. fst x = s) (sort_scored (score_rows q df'))
            = filter (\<lambda>x. fst x = s) (score_rows q df')
        \<and> map fst (rank q df' top_k) = map fst (rank q df top_k)
        \<and> (int (length df) \<le> top_k \<longrightarrow>
             row_scores (rank q df' top_k) = row_scores (rank q df top_k))"
      by (intro conjI)
  qed
  from 1 2 3 4 5 show ?thesis by (intro conjI)
qed

theorem rank_stable_sort_witness:
  "mset [ex_row_agency, ex_row_donor] = mset [ex_row_donor, ex_row_agency]
   \<and> map fst (rank ''ledger accounts'' [ex_row_agency, ex_row_donor] 1)
       = map fst (rank ''ledger accounts'' [ex_row_donor, ex_row_agency] 1)
   \<and> row_scores (rank ''ledger accounts'' [ex_row_agency, ex_row_donor] 2)
       = row_scores (rank ''ledger accounts'' [ex_row_donor, ex_row_agency] 2)
   \<and> sort_scored (score_rows ''ledger accounts'' [ex_row_donor, ex_row_agency])
       = [(- 1, explanation 0 0 0, ex_row_donor), (- 1, explanation 0 0 0, ex_row_agency)]
   \<and> sort_scored (score_rows ''ledger accounts'' [ex_row_agency, ex_row_donor])
       = [(- 1, explanation 0 0 0, ex_row_agency), (- 1, explanation 0 0 0, ex_row_donor)]"
proof -
  have p: "mset [ex_row_agency, ex_row_donor] = mset [ex_row_donor, ex_row_agency]"
    by (simp add: add_mset_commute)
  note t1 = rank_stable_sort [of "''ledger accounts''" "[ex_row_donor, ex_row_agency]" 1
      "- 1" "[ex_row_agency, ex_row_donor]"]
  note t2 = rank_stable_sort [of "''ledger accounts''" "[ex_row_donor, ex_row_agency]" 2
      "- 1" "[ex_row_agency, ex_row_donor]"]
  from t1 have i1: "mset [ex_row_agency, ex_row_donor] = mset [ex_row_donor, ex_row_agency] \<longrightarrow>
        mset (sort_scored (score_rows ''ledger accounts'' [ex_row_agency, ex_row_donor]))
          = mset (sort_scored (score_rows ''ledger accounts'' [ex_row_donor, ex_row_agency]))
        \<and> filter (\<lambda>x. fst x = - 1) (sort_scored (score_rows ''ledger accounts'' [ex_row_agency, ex_row_donor]))
            = filter (\<lambda>x. fst x = - 1) (score_rows ''ledger accounts'' [ex_row_agency, ex_row_donor])
        \<and> map fst (rank ''ledger accounts'' [ex_row_agency, ex_row_donor] 1)
            = map fst (rank ''ledger accounts'' [ex_row_donor, ex_row_agency] 1)
        \<and> (int (length [ex_row_donor, ex_row_agency]) \<le> 1 \<longrightarrow>
             row_scores (rank ''ledger accounts'' [ex_row_agency, ex_row_donor] 1)
               = row_scores (rank ''ledger accounts'' [ex_row_donor, ex_row_agency] 1))"
    by (rule conjunct2 [THEN conjunct2, THEN conjunct2, THEN conjunct2])
  from i1 p have a: "map fst (rank ''ledger accounts'' [ex_row_agency, ex_row_donor] 1)
            = map fst (rank ''ledger accounts'' [ex_row_donor, ex_row_agency] 1)"
    by (rule mp [THEN conjunct2, THEN conjunct2, THEN conjunct1])
  from t2 have i2: "mset [ex_row_agency, ex_row_donor] = mset [ex_row_donor, ex_row_agency] \<longrightarrow>
        mset (sort_scored (score_rows ''ledger accounts'' [ex_row_agency, ex_row_donor]))
          = mset (sort_scored (score_rows ''ledger accounts'' [ex_row_donor, ex_row_agency]))
        \<and> filter (\<lambda>x. fst x = - 1) (sort_scored (score_rows ''ledger accounts'' [ex_row_agency, ex_row_donor]))
            = filter (\<lambda>x. fst x = - 1) (score_rows ''ledger accounts'' [ex_row_agency, ex_row_donor])
        \<and> map fst (rank ''ledger accounts'' [ex_row_agency, ex_row_donor] 2)
            = map fst (rank ''ledger accounts'' [ex_row_donor, ex_row_agency] 2)
        \<and> (int (length [ex_row_donor, ex_row_agency]) \<le> 2 \<longrightarrow>
             row_scores (rank ''ledger accounts'' [ex_row_agency, ex_row_donor] 2)
               = row_scores (rank ''ledger accounts'' [ex_row_donor, ex_row_agency] 2))"
    by (rule conjunct2 [THEN conjunct2, THEN conjunct2, THEN conjunct2])
  from i2 p have "int (length [ex_row_donor, ex_row_agency]) \<le> 2 \<longrightarrow>
             row_scores (rank ''ledger accounts'' [ex_row_agency, ex_row_donor] 2)
               = row_scores (rank ''ledger accounts'' [ex_row_donor, ex_row_agency] 2)"
    by (rule mp [THEN conjunct2, THEN conjunct2, THEN conjunct2])
  moreover have "int (length [ex_row_donor, ex_row_agency]) \<le> 2" by simp
  ultimately have b: "row_scores (rank ''ledger accounts'' [ex_row_agency, ex_row_donor] 2)
       = row_scores (rank ''ledger accounts'' [ex_row_donor, ex_row_agency] 2)"
    by (rule mp)
  have c: "sort_scored (score_rows ''ledger accounts'' [ex_row_donor, ex_row_agency])
       = [(- 1, explanation 0 0 0, ex_row_donor), (- 1, explanation 0 0 0, ex_row_agency)]"
    by (simp add: ex_scored_da sort_scored_def)
  have d: "sort_scored (score_rows ''ledger accounts'' [ex_row_agency, ex_row_donor])
       = [(- 1, explanation 0 0 0, ex_row_agency), (- 1, explanation 0 0 0, ex_row_donor)]"
    by (simp add: ex_scored_ad sort_scored_def)
  from p a b c d show ?thesis by (intro conjI)
qed

text \<open>
  The claim as it was stated speaks of the ranking, which cuts the sorted list to
  \<^verbatim>\<open>top_k\<close> entries. For the question "ledger accounts" both example rows score -1;
  with \<^verbatim>\<open>top_k = 1\<close> the ranking returns the row that comes first in the dataset, so
  the two orders of the dataset give different (row, score) pairs.
\<close>

theorem rank_stable_sort_counterexample:
  "mset [ex_row_agency, ex_row_donor] = mset [ex_row_donor, ex_row_agency]
   \<and> row_scores (rank ''ledger accounts'' [ex_row_donor, ex_row_agency] 1) = {#(ex_row_donor, - 1)#}
   \<and> row_scores (rank ''ledger accounts'' [ex_row_agency, ex_row_donor] 1) = {#(ex_row_agency, - 1)#}
   \<and> ex_row_donor \<noteq> ex_row_agency
   \<and> row_scores (rank ''ledger accounts'' [ex_row_donor, ex_row_agency] 1)
       \<noteq> row_scores (rank ''ledger accounts'' [ex_row_agency, ex_row_donor] 1)"
proof -
  have p: "mset [ex_row_agency, ex_row_donor] = mset [ex_row_donor, ex_row_agency]"
    by (simp add: add_mset_commute)
  have a: "row_scores (rank ''ledger accounts'' [ex_row_donor, ex_row_agency] 1) = {#(ex_row_donor, - 1)#}"
    by (simp add: ex_rank_da row_scores_def)
  have b: "row_scores (rank ''ledger accounts'' [ex_row_agency, ex_row_donor] 1) = {#(ex_row_agency, - 1)#}"
    by (simp add: ex_rank_ad row_scores_def)
  note d = ex_rows_differ
  have e: "row_scores (rank ''ledger accounts'' [ex_row_donor, ex_row_agency] 1)
       \<noteq> row_scores (rank ''ledger accounts'' [ex_row_agency, ex_row_donor] 1)"
    using d by (simp add: a b)
  from p a b d e show ?thesis by (intro conjI)
qed

end
